theory Spec2Isabelle
  imports Main "HOL-Library.Multiset" "HOL-Library.Extended_Nat"
begin

section \<open>JavaScript text and the runtime library\<close>

text \<open>
  A JavaScript string is a sequence of UTF-16 code units; a code unit is modelled as a
  natural number. String literals of the source are written through \<open>js\<close>.
  Bytes of a \<open>Uint8Array\<close> are natural numbers below 256; where the source stores
  a number into a typed array the reduction modulo 256 is written out.

  Four operations of the JavaScript runtime depend on Unicode tables that are not part
  of the repository: \<open>String.prototype.toLowerCase\<close>,
  \<open>String.prototype.normalize('NFKD')\<close>, \<open>TextDecoder('utf-8').decode\<close> and
  \<open>TextEncoder.encode\<close>. They are parameters of the model, collected in the record
  \<open>platform\<close>. On 7-bit input all four are fixed by their standards; \<open>ascii_exact\<close>
  states that behaviour and \<open>ascii_platform\<close> is an instance that is used for closed
  examples on 7-bit input.
\<close>

type_synonym jsstring = "nat list"

definition js :: "string \<Rightarrow> jsstring" where
  "js s = map of_char s"

record platform =
  toLowerCase :: "jsstring \<Rightarrow> jsstring"
  normalizeNFKD :: "jsstring \<Rightarrow> jsstring"
  utf8_decode :: "nat list \<Rightarrow> jsstring"
  utf8_encode :: "jsstring \<Rightarrow> nat list"

definition is_ascii :: "nat list \<Rightarrow> bool" where
  "is_ascii s = list_all (\<lambda>c. c < 128) s"

definition ascii_lower :: "nat \<Rightarrow> nat" where
  "ascii_lower c = (if 65 \<le> c \<and> c \<le> 90 then c + 32 else c)"

definition ascii_exact :: "platform \<Rightarrow> bool" where
  "ascii_exact P \<longleftrightarrow>
     (\<forall>s. is_ascii s \<longrightarrow>
        toLowerCase P s = map ascii_lower s \<and> normalizeNFKD P s = s \<and>
        utf8_decode P s = s \<and> utf8_encode P s = s)"

definition ascii_platform :: platform where
  "ascii_platform =
     \<lparr> toLowerCase = map ascii_lower,
       normalizeNFKD = (\<lambda>s. s),
       utf8_decode = (\<lambda>bs. bs),
       utf8_encode = (\<lambda>s. s) \<rparr>"

text \<open>
  The white space of ECMAScript (\<open>WhiteSpace\<close> and \<open>LineTerminator\<close>): what the
  regular expression class \<open>\s\<close> matches, what \<open>trim\<close> removes and what
  \<open>parseInt\<close> skips.
\<close>

definition is_whitespace :: "nat \<Rightarrow> bool" where
  "is_whitespace c \<longleftrightarrow>
     c \<in> {9, 10, 11, 12, 13, 32, 160, 5760, 8232, 8233, 8239, 8287, 12288, 65279}
     \<or> (8192 \<le> c \<and> c \<le> 8202)"

definition trim :: "jsstring \<Rightarrow> jsstring" where
  "trim s = rev (dropWhile is_whitespace (rev (dropWhile is_whitespace s)))"

text \<open>\<open>s.substring(a, b)\<close> for \<open>a \<le> b\<close>; both ends are clamped to the length.\<close>

definition substring :: "jsstring \<Rightarrow> nat \<Rightarrow> nat \<Rightarrow> jsstring" where
  "substring s a b = take (b - a) (drop a s)"

definition padStart :: "nat \<Rightarrow> nat \<Rightarrow> jsstring \<Rightarrow> jsstring" where
  "padStart n c s = replicate (n - length s) c @ s"

definition padEnd :: "nat \<Rightarrow> nat \<Rightarrow> jsstring \<Rightarrow> jsstring" where
  "padEnd n c s = s @ replicate (n - length s) c"

text \<open>\<open>xs.join(sep)\<close> on an array of strings.\<close>

fun join :: "jsstring \<Rightarrow> jsstring list \<Rightarrow> jsstring" where
  "join sep [] = []"
| "join sep [x] = x"
| "join sep (x # y # ys) = x @ sep @ join sep (y # ys)"

text \<open>
  \<open>String(n)\<close> for a number with an integer value: its decimal digits, with a minus
  sign when negative (the form JavaScript prints for integers below \<open>10^21\<close> in
  magnitude).
\<close>

fun digits_of :: "nat \<Rightarrow> jsstring" where
  "digits_of n = (if n < 10 then [48 + n] else digits_of (n div 10) @ [48 + n mod 10])"

declare digits_of.simps [simp del]

definition String_of :: "int \<Rightarrow> jsstring" where
  "String_of n = (if n < 0 then 45 # digits_of (nat (- n)) else digits_of (nat n))"

section \<open>Name normalisation\<close>

text \<open>
  The character class of the first \<open>replace\<close> in \<open>normalizeString\<close>:
  \<^verbatim>\<open>! " # $ % & ' ( ) * + , - . / : ; < = > ? @ [ \ ] ^ _ ` { | } ~\<close>,
  that is the code units 33-47, 58-64, 91-96 and 123-126.
\<close>

definition is_punct :: "nat \<Rightarrow> bool" where
  "is_punct c \<longleftrightarrow>
     (33 \<le> c \<and> c \<le> 47) \<or> (58 \<le> c \<and> c \<le> 64) \<or> (91 \<le> c \<and> c \<le> 96) \<or> (123 \<le> c \<and> c \<le> 126)"

definition is_lower_letter :: "nat \<Rightarrow> bool" where
  "is_lower_letter c \<longleftrightarrow> 97 \<le> c \<and> c \<le> 122"

definition is_digit :: "nat \<Rightarrow> bool" where
  "is_digit c \<longleftrightarrow> 48 \<le> c \<and> c \<le> 57"

text \<open>
  \<open>normalizeString\<close>: strip the punctuation, normalise to NFKD and drop every code unit
  up \<open>0x7F\<close>, lowercase, remove white space, sort the code units (the default
  \<open>sort\<close> of one-character strings orders them by code unit), and, when the result
  holds a letter \<open>a-z\<close>, move what precedes the first one to the end.
\<close>

definition rotate_at_letter :: "jsstring \<Rightarrow> jsstring" where
  "rotate_at_letter nrm =
     (if list_ex is_lower_letter nrm
      then dropWhile (\<lambda>c. \<not> is_lower_letter c) nrm @ takeWhile (\<lambda>c. \<not> is_lower_letter c) nrm
      else nrm)"

definition normalizeString :: "platform \<Rightarrow> jsstring \<Rightarrow> jsstring" where
  "normalizeString P str =
     (let norm1 = filter (\<lambda>c. \<not> is_punct c) str;
          norm2 = filter (\<lambda>c. c \<le> 127) (normalizeNFKD P norm1);
          norm3 = toLowerCase P norm2;
          norm4 = filter (\<lambda>c. \<not> is_whitespace c) norm3;
          norm5 = sort norm4
      in rotate_at_letter norm5)"

section \<open>Name extraction and identifier conversion\<close>

text \<open>
  The \<open>subfields\<close> object of a data field maps a subfield code to one string, or to an
  array of strings when the code occurs more than once. The object is modelled as the
  list of its entries in the order in which \<open>Object.entries\<close> enumerates them.
\<close>

datatype sfvalue = Str jsstring | Arr "jsstring list"

type_synonym subfields = "(jsstring \<times> sfvalue) list"

text \<open>Truthiness of a property read \<open>subfields[code]\<close>: absent and the empty string are falsy.\<close>

fun truthy :: "sfvalue option \<Rightarrow> bool" where
  "truthy None = False"
| "truthy (Some (Str s)) = (s \<noteq> [])"
| "truthy (Some (Arr vs)) = True"

text \<open>
  How \<open>Array.prototype.join\<close> turns an element into text: a string is itself, an
  array is its elements separated by commas.
\<close>

fun to_text :: "sfvalue \<Rightarrow> jsstring" where
  "to_text (Str s) = s"
| "to_text (Arr vs) = join (js '','') vs"

definition extractNameFromSubfields :: "subfields \<Rightarrow> jsstring" where
  "extractNameFromSubfields sf =
     (let order = [js ''a'', js ''b'', js ''c'', js ''q'', js ''d'', js ''g''];
          parts = concat (map (\<lambda>code. if truthy (map_of sf code) then [the (map_of sf code)] else []) order)
      in trim (join (js '' '') (map to_text parts)))"

definition prefixMap :: "nat \<Rightarrow> jsstring option" where
  "prefixMap c =
     (if c = of_char CHR ''1'' then Some (js ''nb'')
      else if c = of_char CHR ''2'' then Some (js ''nn'')
      else if c = of_char CHR ''3'' then Some (js ''no'')
      else if c = of_char CHR ''4'' then Some (js ''nr'')
      else if c = of_char CHR ''5'' then Some (js ''ns'')
      else if c = of_char CHR ''6'' then Some (js ''n'')
      else None)"

definition convertLCCN :: "int \<Rightarrow> jsstring option" where
  "convertLCCN numericLccn =
     (case String_of numericLccn of
        [] \<Rightarrow> None
      | firstDigit # rest \<Rightarrow>
          (case prefixMap firstDigit of
             None \<Rightarrow> None
           | Some prefix \<Rightarrow> Some (prefix @ rest)))"

definition createLCCNUri :: "int \<Rightarrow> jsstring option" where
  "createLCCNUri numericLccn =
     (case convertLCCN numericLccn of
        None \<Rightarrow> None
      | Some converted \<Rightarrow>
          if converted = [] then None
          else Some (js ''http://id.loc.gov/authorities/names/'' @ converted))"

section \<open>Candidate resolution\<close>

text \<open>
  \<open>levenshteinDistance\<close> fills the matrix row by row. \<open>lev_cells\<close> computes the cells
  \<open>matrix[i][1..]\<close> of one row from the character \<open>str1[i - 1]\<close>, the row above and
  the cell to the left; \<open>lev_rows\<close> runs over the characters of \<open>str1\<close>, and the result
  is the last cell of the last row.
\<close>

fun lev_cells :: "nat \<Rightarrow> jsstring \<Rightarrow> nat \<Rightarrow> nat \<Rightarrow> nat list \<Rightarrow> nat list" where
  "lev_cells c (d # ds) upleft left (up # ups) =
     (let cost = (if c = d then 0 else 1);
          cell = min (up + 1) (min (left + 1) (upleft + cost))
      in cell # lev_cells c ds up cell ups)"
| "lev_cells c _ upleft left _ = []"

fun lev_rows :: "jsstring \<Rightarrow> jsstring \<Rightarrow> nat \<Rightarrow> nat list \<Rightarrow> nat list" where
  "lev_rows [] str2 i row = row"
| "lev_rows (c # cs) str2 i row = lev_rows cs str2 (i + 1) (i # lev_cells c str2 (hd row) i (tl row))"

definition levenshteinDistance :: "jsstring \<Rightarrow> jsstring \<Rightarrow> nat" where
  "levenshteinDistance str1 str2 = last (lev_rows str1 str2 1 [0 ..< length str2 + 1])"

text \<open>
  What the candidate table holds for a trie id: a single number, or an array of
  \<open>[lccn, label]\<close> pairs.
\<close>

datatype lccn_data = LccnNumber int | LccnList "(int \<times> jsstring) list"

record lccn_match =
  lccn :: int
  label :: "jsstring option"
  distance :: nat

text \<open>\<open>s.toLowerCase().replace(/[^a-z0-9]/g, '')\<close>\<close>

definition scoring_form :: "platform \<Rightarrow> jsstring \<Rightarrow> jsstring" where
  "scoring_form P s = filter (\<lambda>c. is_lower_letter c \<or> is_digit c) (toLowerCase P s)"

text \<open>The loop over the candidates; the state is \<open>(bestMatch, bestDistance)\<close>.\<close>

fun best_loop ::
  "platform \<Rightarrow> jsstring \<Rightarrow> (int \<times> jsstring) list \<Rightarrow> lccn_match option \<times> enat \<Rightarrow> lccn_match option \<times> enat" where
  "best_loop P normalizedInput [] st = st"
| "best_loop P normalizedInput ((l, lab) # items) (bestMatch, bestDistance) =
     (let normalizedLabel = scoring_form P lab;
          d = levenshteinDistance normalizedInput normalizedLabel
      in if enat d < bestDistance
         then best_loop P normalizedInput items (Some \<lparr> lccn = l, label = Some lab, distance = d \<rparr>, enat d)
         else best_loop P normalizedInput items (bestMatch, bestDistance))"

fun findBestLCCNMatch :: "platform \<Rightarrow> jsstring \<Rightarrow> lccn_data \<Rightarrow> lccn_match option" where
  "findBestLCCNMatch P originalName (LccnNumber n) = Some \<lparr> lccn = n, label = None, distance = 0 \<rparr>"
| "findBestLCCNMatch P originalName (LccnList lccnData) =
     fst (best_loop P (scoring_form P originalName) lccnData (None, \<infinity>))"

section \<open>Records and fields\<close>

text \<open>
  A field object is either a control field \<open>{tag, data}\<close> or a data field
  \<open>{tag, ind1, ind2, subfields}\<close>; a field made by the XML parser also carries
  \<open>element\<close>, its node in the document, of which the model keeps the \<open>subfield\<close>
  elements as pairs of \<open>code\<close> attribute and text content. The properties
  \<open>offset\<close>, \<open>length\<close> and \<open>rawData\<close>, which the binary parser stores and
  nothing reads, are left out, as are \<open>startOffset\<close> and \<open>rawData\<close> of a record.
\<close>

type_synonym dom_element = "(jsstring \<times> jsstring) list"

datatype field =
    ControlField (tag: jsstring) (data: jsstring)
  | DataField (tag: jsstring) (ind1: jsstring) (ind2: jsstring) (subfields: subfields)
      (element: "dom_element option")

record marc_record =
  endOffset :: nat
  leader :: jsstring
  rfields :: "field list"

datatype error =
    UnsupportedFileType
  | XMLFileTooLarge
  | FailedToReadFile
  | FileReturnedEmpty
  | XMLParsingError
  | TypeError
  | RangeError

subsection \<open>Property order of a JavaScript object\<close>

text \<open>
  A property key that is the canonical decimal form of an integer below \<open>2^32 - 1\<close> is
  an array index. \<open>Object.entries\<close> lists the array indices first, in ascending
  numeric order, then the other string keys in the order of their creation.
\<close>

definition nat_of_digits :: "jsstring \<Rightarrow> nat" where
  "nat_of_digits ds = foldl (\<lambda>a d. 10 * a + (d - 48)) 0 ds"

definition array_index :: "jsstring \<Rightarrow> nat option" where
  "array_index k =
     (if k \<noteq> [] \<and> list_all is_digit k \<and> (hd k \<noteq> 48 \<or> length k = 1) \<and> nat_of_digits k < 2 ^ 32 - 1
      then Some (nat_of_digits k) else None)"

fun insert_index :: "nat \<Rightarrow> jsstring \<Rightarrow> 'v \<Rightarrow> (jsstring \<times> 'v) list \<Rightarrow> (jsstring \<times> 'v) list" where
  "insert_index n k v [] = [(k, v)]"
| "insert_index n k v ((k', v') # rest) =
     (case array_index k' of
        Some m \<Rightarrow> if m < n then (k', v') # insert_index n k v rest else (k, v) # (k', v') # rest
      | None \<Rightarrow> (k, v) # (k', v') # rest)"

text \<open>\<open>obj[k] = v\<close>: an existing property keeps its place, a new one takes the place its key gives it.\<close>

definition obj_set :: "(jsstring \<times> 'v) list \<Rightarrow> jsstring \<Rightarrow> 'v \<Rightarrow> (jsstring \<times> 'v) list" where
  "obj_set obj k v =
     (if k \<in> fst ` set obj then map (\<lambda>(k', v'). if k' = k then (k', v) else (k', v')) obj
      else case array_index k of
             Some n \<Rightarrow> insert_index n k v obj
           | None \<Rightarrow> obj @ [(k, v)])"

section \<open>The binary codec\<close>

subsection \<open>Numbers, slices and typed arrays\<close>

text \<open>
  \<open>parseInt(s, 10)\<close>: leading white space is skipped, a sign is read, then the longest
  run of decimal digits; the result is \<open>NaN\<close>, here \<open>None\<close>, when there is no digit.
\<close>

definition parseInt10 :: "jsstring \<Rightarrow> int option" where
  "parseInt10 s =
     (let s1 = dropWhile is_whitespace s;
          sgn = (if s1 \<noteq> [] \<and> hd s1 = 45 then - 1 else 1);
          s2 = (if s1 \<noteq> [] \<and> (hd s1 = 45 \<or> hd s1 = 43) then tl s1 else s1);
          ds = takeWhile is_digit s2
      in if ds = [] then None else Some (sgn * int (nat_of_digits ds)))"

text \<open>
  \<open>TypedArray.prototype.slice(start, end)\<close>: \<open>NaN\<close> counts as 0, a negative index is
  taken from the end, and both ends are clamped to the length.
\<close>

definition rel_index :: "nat \<Rightarrow> int option \<Rightarrow> nat" where
  "rel_index len i =
     (case i of
        None \<Rightarrow> 0
      | Some k \<Rightarrow> if k < 0 then nat (max (int len + k) 0) else min (nat k) len)"

definition slice :: "nat list \<Rightarrow> int option \<Rightarrow> int option \<Rightarrow> nat list" where
  "slice xs s e =
     (let a = rel_index (length xs) s; b = rel_index (length xs) e
      in take (b - a) (drop a xs))"

text \<open>\<open>String.fromCharCode(data[i])\<close>; reading past the end gives \<open>undefined\<close>, whose character code is 0.\<close>

definition fromCharCode_at :: "nat list \<Rightarrow> nat \<Rightarrow> jsstring" where
  "fromCharCode_at xs i = (if i < length xs then [xs ! i] else [0])"

text \<open>
  \<open>s.charCodeAt(0)\<close> as stored into a \<open>Uint8Array\<close>: reduced modulo 256, and 0 for the
  empty string, where \<open>charCodeAt\<close> is \<open>NaN\<close>.
\<close>

definition charCode0_byte :: "jsstring \<Rightarrow> nat" where
  "charCode0_byte s = (case s of [] \<Rightarrow> 0 | c # _ \<Rightarrow> c mod 256)"

text \<open>\<open>target.set(source, offset)\<close> throws a \<open>RangeError\<close> when the source does not fit.\<close>

definition ta_set :: "nat list \<Rightarrow> nat list \<Rightarrow> nat \<Rightarrow> error + nat list" where
  "ta_set target source off =
     (if off + length source > length target then Inl RangeError
      else Inr (take off target @ source @ drop (off + length source) target))"

definition starts_with_00 :: "jsstring \<Rightarrow> bool" where
  "starts_with_00 t = (take 2 t = [48, 48])"

subsection \<open>Decoding\<close>

text \<open>
  \<open>parseSubfields\<close> scans \<open>data\<close> from index \<open>i\<close>; the model recurses on the rest of
  the data from \<open>i\<close> on. The accumulator is the \<open>subfields\<close> object.
\<close>

definition add_subfield :: "subfields \<Rightarrow> jsstring \<Rightarrow> jsstring \<Rightarrow> subfields" where
  "add_subfield sf code v =
     (if \<not> truthy (map_of sf code) then obj_set sf code (Str v)
      else case the (map_of sf code) of
             Str s \<Rightarrow> obj_set sf code (Arr [s, v])
           | Arr vs \<Rightarrow> obj_set sf code (Arr (vs @ [v])))"

function parseSubfields :: "platform \<Rightarrow> nat list \<Rightarrow> subfields \<Rightarrow> subfields" where
  "parseSubfields P [] sf = sf"
| "parseSubfields P (b # rest) sf =
     (if b = 31 then
        let code = fromCharCode_at rest 0;
            body = drop 1 rest;
            v = utf8_decode P (takeWhile (\<lambda>x. x \<noteq> 31 \<and> x \<noteq> 30) body)
        in parseSubfields P (dropWhile (\<lambda>x. x \<noteq> 31 \<and> x \<noteq> 30) body) (add_subfield sf code v)
      else parseSubfields P rest sf)"
  by pat_completeness auto
termination
  apply (relation "measure (\<lambda>(P, d, sf). length d)")
    apply simp_all
  apply (rule le_imp_less_Suc)
  apply (rule order.trans [OF length_dropWhile_le])
  apply simp
  done

text \<open>One directory entry and its field.\<close>

definition parseField :: "platform \<Rightarrow> nat list \<Rightarrow> int \<Rightarrow> int \<Rightarrow> jsstring \<Rightarrow> int option \<Rightarrow> int option \<Rightarrow> field" where
  "parseField P bytes startOffset baseAddress tg fieldLength fieldStart =
     (let fieldDataOffset = map_option (\<lambda>s. startOffset + baseAddress + s) fieldStart;
          fieldDataEnd = (case (fieldDataOffset, fieldLength) of
                            (Some a, Some l) \<Rightarrow> Some (a + l - 1)
                          | _ \<Rightarrow> None);
          fieldData = slice bytes fieldDataOffset fieldDataEnd
      in if starts_with_00 tg then ControlField tg (utf8_decode P fieldData)
         else DataField tg (fromCharCode_at fieldData 0) (fromCharCode_at fieldData 1)
                (parseSubfields P (drop 2 fieldData) []) None)"

function parseDirectory :: "platform \<Rightarrow> nat list \<Rightarrow> int \<Rightarrow> int \<Rightarrow> int \<Rightarrow> int \<Rightarrow> field list" where
  "parseDirectory P bytes startOffset baseAddress directoryOffset directoryEnd =
     (if directoryOffset < directoryEnd then
        let tg = utf8_decode P (slice bytes (Some directoryOffset) (Some (directoryOffset + 3)));
            fieldLength = parseInt10 (utf8_decode P (slice bytes (Some (directoryOffset + 3)) (Some (directoryOffset + 7))));
            fieldStart = parseInt10 (utf8_decode P (slice bytes (Some (directoryOffset + 7)) (Some (directoryOffset + 12))))
        in if tg = [30] \<or> tg = [] then []
           else parseField P bytes startOffset baseAddress tg fieldLength fieldStart
                # parseDirectory P bytes startOffset baseAddress (directoryOffset + 12) directoryEnd
      else [])"
  by pat_completeness auto
termination
  by (relation "measure (\<lambda>(P, bytes, s, b, off, e). nat (e - off))") auto

declare parseDirectory.simps [simp del]

definition parseRecord :: "platform \<Rightarrow> nat list \<Rightarrow> nat \<Rightarrow> marc_record option" where
  "parseRecord P bytes startOffset =
     (let leaderBytes = slice bytes (Some (int startOffset)) (Some (int startOffset + 24));
          ldr = utf8_decode P leaderBytes;
          recordLength = parseInt10 (substring ldr 0 5)
      in case recordLength of
           None \<Rightarrow> None
         | Some rl \<Rightarrow>
             if rl \<le> 0 then None
             else
               let baseAddress = parseInt10 (substring ldr 12 17)
               in Some \<lparr> endOffset = startOffset + nat rl,
                         leader = ldr,
                         rfields = (case baseAddress of
                                     None \<Rightarrow> []
                                   | Some ba \<Rightarrow>
                                       parseDirectory P bytes (int startOffset) ba
                                         (int startOffset + 24) (int startOffset + ba - 1)) \<rparr>)"

text \<open>A decoded record ends after its start: the length read from the leader is positive.\<close>

lemma parseRecord_endOffset:
  assumes "parseRecord P bytes off = Some r"
  shows "off < endOffset r"
proof (cases "parseInt10 (substring (utf8_decode P (slice bytes (Some (int off)) (Some (int off + 24)))) 0 5)")
  case None
  with assms show ?thesis by (simp add: parseRecord_def)
next
  case (Some rl)
  with assms have "0 < rl" and "r = \<lparr> endOffset = off + nat rl, leader = leader r, rfields = rfields r \<rparr>"
    by (auto simp add: parseRecord_def Let_def split: if_splits)
  then have "0 < rl" and "endOffset r = off + nat rl"
    by (simp, metis marc_record.select_convs(1))
  then show ?thesis by simp
qed

text \<open>
  The scan of \<open>parse\<close>. Nothing \<open>parseRecord\<close> calls can throw (slices clamp, the
  decoder replaces malformed input, \<open>parseInt\<close> returns \<open>NaN\<close>), so the \<open>catch\<close>
  branch has no counterpart.
\<close>

function parse_from :: "platform \<Rightarrow> nat list \<Rightarrow> nat \<Rightarrow> marc_record list \<Rightarrow> marc_record list" where
  "parse_from P bytes offset records =
     (if offset < length bytes then
        if bytes ! offset = 0 \<or> offset + 24 \<ge> length bytes then records
        else case parseRecord P bytes offset of
               Some record \<Rightarrow> parse_from P bytes (endOffset record) (records @ [record])
             | None \<Rightarrow> records
      else records)"
  by pat_completeness auto
termination
  apply (relation "measure (\<lambda>(P, bytes, offset, records). length bytes - offset)")
   apply simp
  apply (simp add: parseRecord_endOffset diff_less_mono2)
  done

declare parse_from.simps [simp del]

definition parse :: "platform \<Rightarrow> nat list \<Rightarrow> marc_record list" where
  "parse P bytes = parse_from P bytes 0 []"

subsection \<open>Encoding\<close>

text \<open>The values under one subfield code: \<open>Array.isArray(value) ? value : [value]\<close>.\<close>

fun values_of :: "sfvalue \<Rightarrow> jsstring list" where
  "values_of (Str s) = [s]"
| "values_of (Arr vs) = vs"

definition subfield_bytes :: "platform \<Rightarrow> subfields \<Rightarrow> nat list" where
  "subfield_bytes P sf =
     concat (map (\<lambda>(code, v).
       concat (map (\<lambda>s. [31, charCode0_byte code] @ utf8_encode P s) (values_of v))) sf)"

text \<open>
  The bytes of one field before its terminator. Which branch is taken depends on the
  tag only; a field object that lacks the properties the branch reads (\<open>ind1\<close> of a
  control field, \<open>data\<close> of a data field) makes \<open>charCodeAt\<close> throw, respectively
  \<open>encode(undefined)\<close> return no bytes.
\<close>

fun fieldData_of :: "platform \<Rightarrow> field \<Rightarrow> error + nat list" where
  "fieldData_of P (ControlField tg d) =
     (if starts_with_00 tg then Inr (utf8_encode P d) else Inl TypeError)"
| "fieldData_of P (DataField tg i1 i2 sf el) =
     (if starts_with_00 tg then Inr []
      else Inr ([charCode0_byte i1, charCode0_byte i2] @ subfield_bytes P sf))"

definition directoryEntry :: "platform \<Rightarrow> jsstring \<Rightarrow> nat \<Rightarrow> nat \<Rightarrow> nat list" where
  "directoryEntry P tg fieldLength currentOffset =
     utf8_encode P (padEnd 3 32 tg @ padStart 4 48 (String_of (int fieldLength))
                    @ padStart 5 48 (String_of (int currentOffset)))"

text \<open>
  The loop over \<open>record.fields\<close>: the result is \<open>(fieldDataParts, directoryEntries)\<close>,
  the argument \<open>currentOffset\<close> is the running start of the next field.
\<close>

fun rebuild_fields :: "platform \<Rightarrow> field list \<Rightarrow> nat \<Rightarrow> error + (nat list list \<times> nat list list)" where
  "rebuild_fields P [] currentOffset = Inr ([], [])"
| "rebuild_fields P (f # fs) currentOffset =
     (case fieldData_of P f of
        Inl e \<Rightarrow> Inl e
      | Inr fieldData \<Rightarrow>
          let fieldDataWithTerminator = fieldData @ [30];
              fieldLength = length fieldDataWithTerminator;
              entry = directoryEntry P (tag f) fieldLength currentOffset
          in case rebuild_fields P fs (currentOffset + fieldLength) of
               Inl e \<Rightarrow> Inl e
             | Inr (fieldDataParts, directoryEntries) \<Rightarrow>
                 Inr (fieldDataWithTerminator # fieldDataParts, entry # directoryEntries))"

text \<open>\<open>directory.set(entry, dirOffset); dirOffset += 12\<close> for every entry.\<close>

fun set_entries :: "nat list \<Rightarrow> nat list list \<Rightarrow> nat \<Rightarrow> error + nat list" where
  "set_entries directory [] dirOffset = Inr directory"
| "set_entries directory (entry # entries) dirOffset =
     (case ta_set directory entry dirOffset of
        Inl e \<Rightarrow> Inl e
      | Inr directory' \<Rightarrow> set_entries directory' entries (dirOffset + 12))"

definition rebuild_leader :: "platform \<Rightarrow> jsstring \<Rightarrow> nat \<Rightarrow> nat \<Rightarrow> nat list" where
  "rebuild_leader P ldr recordLength baseAddress =
     utf8_encode P (substring (padEnd 24 32
        (padStart 5 48 (String_of (int recordLength)) @ substring ldr 5 12
         @ padStart 5 48 (String_of (int baseAddress)) @ substring ldr 17 20 @ js ''4500'')) 0 24)"

definition rebuildRecord :: "platform \<Rightarrow> marc_record \<Rightarrow> error + nat list" where
  "rebuildRecord P record =
     (case rebuild_fields P (rfields record) 0 of
        Inl e \<Rightarrow> Inl e
      | Inr (fieldDataParts, directoryEntries) \<Rightarrow>
          let fieldData = concat fieldDataParts;
              directoryLength = length directoryEntries * 12 + 1
          in case set_entries (replicate directoryLength 0) directoryEntries 0 of
               Inl e \<Rightarrow> Inl e
             | Inr directory0 \<Rightarrow>
                 let directory = directory0 [length directoryEntries * 12 := 30];
                     baseAddress = 24 + directoryLength;
                     recordLength = baseAddress + length fieldData + 1;
                     ldr = rebuild_leader P (leader record) recordLength baseAddress
                 in case ta_set (replicate recordLength 0) ldr 0 of
                      Inl e \<Rightarrow> Inl e
                    | Inr c1 \<Rightarrow>
                        (case ta_set c1 directory 24 of
                           Inl e \<Rightarrow> Inl e
                         | Inr c2 \<Rightarrow>
                             (case ta_set c2 fieldData baseAddress of
                                Inl e \<Rightarrow> Inl e
                              | Inr c3 \<Rightarrow> Inr (c3 [recordLength - 1 := 29]))))"

fun exportBinary :: "platform \<Rightarrow> marc_record list \<Rightarrow> error + nat list" where
  "exportBinary P [] = Inr []"
| "exportBinary P (record # records) =
     (case rebuildRecord P record of
        Inl e \<Rightarrow> Inl e
      | Inr rebuilt \<Rightarrow>
          (case exportBinary P records of
             Inl e \<Rightarrow> Inl e
           | Inr rest \<Rightarrow> Inr (rebuilt @ rest)))"

section \<open>The reconciliation pipeline\<close>

subsection \<open>Collaborators\<close>

text \<open>
  \<open>LookupDecoder.get\<close>: the decoded table is an array of entries, each \<open>null\<close>, a
  number or a list of pairs; an index out of range gives \<open>null\<close>.
\<close>

definition lookupDecoder_get :: "lccn_data option list \<Rightarrow> int \<Rightarrow> lccn_data option" where
  "lookupDecoder_get table idx =
     (if idx < 0 \<or> idx \<ge> int (length table) then None else table ! nat idx)"

text \<open>\<open>!lccnData\<close>: \<open>null\<close> and the number 0 are falsy, every array is truthy.\<close>

fun no_data :: "lccn_data option \<Rightarrow> bool" where
  "no_data None = True"
| "no_data (Some (LccnNumber n)) = (n = 0)"
| "no_data (Some (LccnList items)) = False"

text \<open>
  The input \<open>File\<close>, with what the pipeline reads from it, and the two operations of the
  browser's XML library that \<open>MARCXMLParser\<close> wraps: parsing a document into records
  (\<open>None\<close> when the document has a \<open>parsererror\<close>) and serialising the document.
  The trie is a function from the normalised key to its id, \<open>-1\<close> when absent.
\<close>

record marc_file =
  file_name :: jsstring
  file_size :: nat
  arrayBuffer :: "nat list"
  file_text :: "jsstring option"

record dom_api =
  parseXML :: "jsstring \<Rightarrow> marc_record list option"
  serializeXML :: "marc_record list \<Rightarrow> jsstring"

subsection \<open>The report\<close>

record detail =
  recordIndex :: nat
  field_tag :: jsstring
  name :: jsstring
  status :: jsstring
  reason :: "jsstring option"
  lccnUri :: "jsstring option"
  matchedLabel :: "jsstring option"
  levenshtein :: "nat option"

record report =
  totalRecords :: nat
  totalFieldsProcessed :: nat
  fieldsUpdated :: nat
  fieldsNotFound :: nat
  fieldsPoorMatch :: nat
  details :: "detail list"

definition MAX_LEVENSHTEIN_DISTANCE :: nat where
  "MAX_LEVENSHTEIN_DISTANCE = 10"

definition nameFieldTags :: "jsstring list" where
  "nameFieldTags = [js ''100'', js ''110'', js ''700'', js ''710'']"

definition not_found_entry :: "nat \<Rightarrow> jsstring \<Rightarrow> jsstring \<Rightarrow> jsstring \<Rightarrow> detail" where
  "not_found_entry i tg nm why =
     \<lparr> recordIndex = i + 1, field_tag = tg, name = nm, status = js ''not_found'',
       reason = Some why, lccnUri = None, matchedLabel = None, levenshtein = None \<rparr>"

definition poor_match_entry :: "nat \<Rightarrow> jsstring \<Rightarrow> jsstring \<Rightarrow> lccn_match \<Rightarrow> detail" where
  "poor_match_entry i tg nm m =
     \<lparr> recordIndex = i + 1, field_tag = tg, name = nm, status = js ''poor_match'',
       reason = Some (js ''Match quality too low (distance: '' @ String_of (int (distance m)) @ js '')''),
       lccnUri = None, matchedLabel = label m, levenshtein = Some (distance m) \<rparr>"

definition error_entry :: "nat \<Rightarrow> jsstring \<Rightarrow> jsstring \<Rightarrow> detail" where
  "error_entry i tg nm =
     \<lparr> recordIndex = i + 1, field_tag = tg, name = nm, status = js ''error'',
       reason = Some (js ''Failed to convert LCCN to URI''),
       lccnUri = None, matchedLabel = None, levenshtein = None \<rparr>"

definition updated_entry :: "nat \<Rightarrow> jsstring \<Rightarrow> jsstring \<Rightarrow> jsstring \<Rightarrow> lccn_match \<Rightarrow> detail" where
  "updated_entry i tg nm uri m =
     \<lparr> recordIndex = i + 1, field_tag = tg, name = nm, status = js ''updated'',
       reason = None, lccnUri = Some uri, matchedLabel = label m, levenshtein = Some (distance m) \<rparr>"

subsection \<open>Writing the identifier\<close>

text \<open>
  \<open>updateSubfieldZero\<close> of the XML parser: the first \<open>subfield\<close> element with code
  \<open>0\<close> gets the URI as its text, or a new element is appended; then
  \<open>field.subfields['0'] = uri\<close>.
\<close>

fun dom_set_zero :: "dom_element \<Rightarrow> jsstring \<Rightarrow> dom_element" where
  "dom_set_zero [] uri = [(js ''0'', uri)]"
| "dom_set_zero ((code, txt) # rest) uri =
     (if code = js ''0'' then (code, uri) # rest else (code, txt) # dom_set_zero rest uri)"

fun updateSubfieldZero :: "field \<Rightarrow> jsstring \<Rightarrow> error + field" where
  "updateSubfieldZero (DataField tg i1 i2 sf (Some el)) uri =
     Inr (DataField tg i1 i2 (obj_set sf (js ''0'') (Str uri)) (Some (dom_set_zero el uri)))"
| "updateSubfieldZero (DataField tg i1 i2 sf None) uri = Inl TypeError"
| "updateSubfieldZero (ControlField tg d) uri = Inl TypeError"

text \<open>The binary branch: \<open>field.subfields['0'] = uri\<close>.\<close>

fun setSubfieldZero :: "field \<Rightarrow> jsstring \<Rightarrow> field" where
  "setSubfieldZero (DataField tg i1 i2 sf el) uri = DataField tg i1 i2 (obj_set sf (js ''0'') (Str uri)) el"
| "setSubfieldZero (ControlField tg d) uri = ControlField tg d"

subsection \<open>One field\<close>

text \<open>
  The body of the loop over \<open>record.fields\<close> in \<open>processMARCFile\<close>, for the field
  \<open>f\<close> of the record with index \<open>i\<close>: the result is the field and the report as the
  body leaves them, or the error it throws. Every \<open>continue\<close> is a branch that
  returns the field as it was. Reading \<open>match.distance\<close> from \<open>null\<close> throws a
  \<open>TypeError\<close>.
\<close>

definition processField ::
  "platform \<Rightarrow> jsstring \<Rightarrow> (jsstring \<Rightarrow> int) \<Rightarrow> lccn_data option list \<Rightarrow> nat \<Rightarrow> field \<Rightarrow> report
   \<Rightarrow> error + (field \<times> report)" where
  "processField P fileType trie table i f rep =
     (if tag f \<notin> set nameFieldTags then Inr (f, rep)
      else case f of
        ControlField tg d \<Rightarrow> Inr (f, rep)
      | DataField tg i1 i2 sf el \<Rightarrow>
          let rep1 = rep \<lparr> totalFieldsProcessed := totalFieldsProcessed rep + 1 \<rparr>;
              nm = extractNameFromSubfields sf
          in if nm = [] then Inr (f, rep1)
             else
               let normalized = normalizeString P nm;
                   trieId = trie normalized
               in if trieId = - 1 then
                    Inr (f, rep1 \<lparr> fieldsNotFound := fieldsNotFound rep1 + 1,
                                  details := details rep1 @
                                    [not_found_entry i tg nm (js ''Name not found in LCNAF trie'')] \<rparr>)
                  else
                    let lccnData = lookupDecoder_get table trieId
                    in if no_data lccnData then
                         Inr (f, rep1 \<lparr> fieldsNotFound := fieldsNotFound rep1 + 1,
                                       details := details rep1 @
                                         [not_found_entry i tg nm (js ''No LCCN data available for trie match'')] \<rparr>)
                       else
                         case findBestLCCNMatch P nm (the lccnData) of
                           None \<Rightarrow> Inl TypeError
                         | Some m \<Rightarrow>
                             if distance m > MAX_LEVENSHTEIN_DISTANCE then
                               Inr (f, rep1 \<lparr> fieldsPoorMatch := fieldsPoorMatch rep1 + 1,
                                             details := details rep1 @ [poor_match_entry i tg nm m] \<rparr>)
                             else
                               case createLCCNUri (lccn m) of
                                 None \<Rightarrow>
                                   Inr (f, rep1 \<lparr> fieldsNotFound := fieldsNotFound rep1 + 1,
                                                 details := details rep1 @ [error_entry i tg nm] \<rparr>)
                               | Some uri \<Rightarrow>
                                   (case (if fileType = js ''xml'' then updateSubfieldZero f uri
                                          else Inr (setSubfieldZero f uri)) of
                                      Inl e \<Rightarrow> Inl e
                                    | Inr f' \<Rightarrow>
                                        Inr (f', rep1 \<lparr> fieldsUpdated := fieldsUpdated rep1 + 1,
                                                       details := details rep1 @ [updated_entry i tg nm uri m] \<rparr>)))"

subsection \<open>All fields, all records\<close>

fun processFields ::
  "platform \<Rightarrow> jsstring \<Rightarrow> (jsstring \<Rightarrow> int) \<Rightarrow> lccn_data option list \<Rightarrow> nat \<Rightarrow> field list \<Rightarrow> report
   \<Rightarrow> error + (field list \<times> report)" where
  "processFields P fileType trie table i [] rep = Inr ([], rep)"
| "processFields P fileType trie table i (f # fs) rep =
     (case processField P fileType trie table i f rep of
        Inl e \<Rightarrow> Inl e
      | Inr (f', rep') \<Rightarrow>
          (case processFields P fileType trie table i fs rep' of
             Inl e \<Rightarrow> Inl e
           | Inr (fs', rep'') \<Rightarrow> Inr (f' # fs', rep'')))"

fun processRecords ::
  "platform \<Rightarrow> jsstring \<Rightarrow> (jsstring \<Rightarrow> int) \<Rightarrow> lccn_data option list \<Rightarrow> nat \<Rightarrow> marc_record list \<Rightarrow> report
   \<Rightarrow> error + (marc_record list \<times> report)" where
  "processRecords P fileType trie table i [] rep = Inr ([], rep)"
| "processRecords P fileType trie table i (r # rs) rep =
     (case processFields P fileType trie table i (rfields r) rep of
        Inl e \<Rightarrow> Inl e
      | Inr (fs', rep') \<Rightarrow>
          (case processRecords P fileType trie table (i + 1) rs rep' of
             Inl e \<Rightarrow> Inl e
           | Inr (rs', rep'') \<Rightarrow> Inr (r \<lparr> rfields := fs' \<rparr> # rs', rep'')))"

subsection \<open>The whole file\<close>

definition endsWith :: "jsstring \<Rightarrow> jsstring \<Rightarrow> bool" where
  "endsWith s suffix = (length suffix \<le> length s \<and> drop (length s - length suffix) s = suffix)"

definition detectFileType :: "platform \<Rightarrow> marc_file \<Rightarrow> jsstring" where
  "detectFileType P file =
     (let nm = toLowerCase P (file_name file)
      in if endsWith nm (js ''.xml'') then js ''xml''
         else if endsWith nm (js ''.mrc'') \<or> endsWith nm (js ''.marc'') then js ''binary''
         else js ''xml'')"

text \<open>The first stage: choosing the parser by file type and decoding.\<close>

definition readRecords :: "platform \<Rightarrow> dom_api \<Rightarrow> jsstring \<Rightarrow> marc_file \<Rightarrow> error + marc_record list" where
  "readRecords P D fileType file =
     (if fileType = js ''binary'' then Inr (parse P (arrayBuffer file))
      else if fileType = js ''xml'' then
        if file_size file > 500 * 1024 * 1024 then Inl XMLFileTooLarge
        else case file_text file of
               None \<Rightarrow> Inl FailedToReadFile
             | Some txt \<Rightarrow>
                 if txt = [] then Inl FileReturnedEmpty
                 else (case parseXML D txt of
                         None \<Rightarrow> Inl XMLParsingError
                       | Some records \<Rightarrow> Inr records)
      else Inl UnsupportedFileType)"

datatype pipeline_output = BinaryOutput "nat list" | XmlOutput jsstring

text \<open>\<open>name.replace(/\.xml$/, '_enhanced.xml')\<close> and \<open>name.replace(/\.(mrc|marc)$/, '_enhanced.mrc')\<close>.\<close>

definition outputFilename :: "jsstring \<Rightarrow> jsstring \<Rightarrow> jsstring" where
  "outputFilename fileType nm =
     (if fileType = js ''xml'' then
        if endsWith nm (js ''.xml'') then take (length nm - 4) nm @ js ''_enhanced.xml'' else nm
      else if endsWith nm (js ''.mrc'') then take (length nm - 4) nm @ js ''_enhanced.mrc''
      else if endsWith nm (js ''.marc'') then take (length nm - 5) nm @ js ''_enhanced.mrc''
      else nm)"

text \<open>
  The last stage. \<open>serialize\<close> reads \<open>this.records[0].element\<close>, which throws when
  there is no record.
\<close>

definition writeOutput :: "platform \<Rightarrow> dom_api \<Rightarrow> jsstring \<Rightarrow> marc_record list \<Rightarrow> error + pipeline_output" where
  "writeOutput P D fileType records =
     (if fileType = js ''xml'' then
        if records = [] then Inl TypeError else Inr (XmlOutput (serializeXML D records))
      else case exportBinary P records of
             Inl e \<Rightarrow> Inl e
           | Inr binaryData \<Rightarrow> Inr (BinaryOutput binaryData))"

text \<open>
  \<open>processMARCFile\<close>. The progress callback and the \<open>sleep\<close> calls, which pass
  nothing back into the computation, are left out.
\<close>

definition processMARCFile ::
  "platform \<Rightarrow> dom_api \<Rightarrow> (jsstring \<Rightarrow> int) \<Rightarrow> lccn_data option list \<Rightarrow> marc_file
   \<Rightarrow> error + (pipeline_output \<times> jsstring \<times> report)" where
  "processMARCFile P D trie table file =
     (let fileType = detectFileType P file
      in case readRecords P D fileType file of
           Inl e \<Rightarrow> Inl e
         | Inr records \<Rightarrow>
             let rep0 = \<lparr> totalRecords = length records, totalFieldsProcessed = 0, fieldsUpdated = 0,
                          fieldsNotFound = 0, fieldsPoorMatch = 0, details = [] \<rparr>
             in case processRecords P fileType trie table 0 records rep0 of
                  Inl e \<Rightarrow> Inl e
                | Inr (records', rep) \<Rightarrow>
                    (case writeOutput P D fileType records' of
                       Inl e \<Rightarrow> Inl e
                     | Inr out \<Rightarrow> Inr (out, outputFilename fileType (file_name file), rep)))"

section \<open>Notions used to state the properties\<close>

text \<open>The distance the resolver computes between a name and one candidate.\<close>

definition candidate_distance :: "platform \<Rightarrow> jsstring \<Rightarrow> int \<times> jsstring \<Rightarrow> nat" where
  "candidate_distance P nm item =
     levenshteinDistance (scoring_form P nm) (scoring_form P (snd item))"

text \<open>
  The Levenshtein distance by its definition. \<open>edits n xs ys\<close> holds when \<open>xs\<close>
  can be turned into \<open>ys\<close> by \<open>n\<close> single-character edits (replacing, deleting
  or inserting one character), the other characters being kept; \<open>edit_distance\<close> is
  the usual recurrence for the least such number. \<open>normalized_distance_spec\<close> is the
  distance of two texts as the resolver is specified to score them: both lowercased and
  stripped of every character outside \<open>a-z0-9\<close>.
\<close>

inductive edits :: "nat \<Rightarrow> 'a list \<Rightarrow> 'a list \<Rightarrow> bool" where
  Empty: "edits 0 [] []"
| Keep: "edits n xs ys \<Longrightarrow> edits n (x # xs) (x # ys)"
| Replace: "edits n xs ys \<Longrightarrow> edits (Suc n) (x # xs) (y # ys)"
| Delete: "edits n xs ys \<Longrightarrow> edits (Suc n) (x # xs) ys"
| Insert: "edits n xs ys \<Longrightarrow> edits (Suc n) xs (y # ys)"

fun edit_distance :: "'a list \<Rightarrow> 'a list \<Rightarrow> nat" where
  "edit_distance [] ys = length ys"
| "edit_distance (x # xs) [] = length (x # xs)"
| "edit_distance (x # xs) (y # ys) =
     min (edit_distance xs (y # ys) + 1)
       (min (edit_distance (x # xs) ys + 1)
          (edit_distance xs ys + (if x = y then 0 else 1)))"

text \<open>
  The distances from \<open>ra\<close> to the texts that grow from \<open>rp\<close> by the characters
  of the third argument, put in front one after the other.
\<close>

fun ed_row :: "'a list \<Rightarrow> 'a list \<Rightarrow> 'a list \<Rightarrow> nat list" where
  "ed_row ra rp [] = []"
| "ed_row ra rp (d # ds) = edit_distance ra (d # rp) # ed_row ra (d # rp) ds"

definition normalized_distance_spec :: "platform \<Rightarrow> jsstring \<Rightarrow> jsstring \<Rightarrow> nat" where
  "normalized_distance_spec P a b =
     edit_distance (filter (\<lambda>c. (97 \<le> c \<and> c \<le> 122) \<or> (48 \<le> c \<and> c \<le> 57)) (toLowerCase P a))
       (filter (\<lambda>c. (97 \<le> c \<and> c \<le> 122) \<or> (48 \<le> c \<and> c \<le> 57)) (toLowerCase P b))"

text \<open>
  A JavaScript string is well formed when it is the UTF-16 form of a sequence of
  characters, that is of Unicode scalar values: a character below \<open>0x10000\<close> is one
  code unit, any other character is a pair of surrogates. Only in a string that is not
  well formed does a surrogate stand alone.
\<close>

definition is_scalar :: "nat \<Rightarrow> bool" where
  "is_scalar c \<longleftrightarrow> c < 1114112 \<and> \<not> (55296 \<le> c \<and> c \<le> 57343)"

definition utf16_units :: "nat \<Rightarrow> jsstring" where
  "utf16_units c =
     (if c < 65536 then [c]
      else [55296 + (c - 65536) div 1024, 56320 + (c - 65536) mod 1024])"

definition utf16 :: "nat list \<Rightarrow> jsstring" where
  "utf16 cps = concat (map utf16_units cps)"

section \<open>Sample data\<close>

text \<open>
  A candidate list, the subfields of a name field of one record, and the report at the
  start of a run over one record; they serve the closed examples.
\<close>

definition example_candidates :: "(int \<times> jsstring) list" where
  "example_candidates =
     [(179041849, js ''S. E. A.''), (279041849, js ''Esa''), (379041849, js ''E. A. S.'')]"

definition example_subfields :: subfields where
  "example_subfields = [(js ''a'', Str (js ''S. E. A.''))]"

text \<open>
  Two names whose scoring forms \<open>smithjohna\<close> and \<open>smithjohnal\<close> have 10 and 11
  characters, and two candidates with the one-letter scoring forms \<open>x\<close> and \<open>y\<close>,
  which are at distance 10 from the first name and 11 from the second. The identifier
  in the third list does not start with one of the digits 1 to 6.
\<close>

definition example_subfields_10 :: subfields where
  "example_subfields_10 = [(js ''a'', Str (js ''Smith, John A.''))]"

definition example_subfields_11 :: subfields where
  "example_subfields_11 = [(js ''a'', Str (js ''Smith, John Al''))]"

definition example_far_candidates :: "(int \<times> jsstring) list" where
  "example_far_candidates = [(179041849, js ''X.''), (279041849, js ''Y.'')]"

definition example_unconvertible_candidates :: "(int \<times> jsstring) list" where
  "example_unconvertible_candidates = [(779041849, js ''X.'')]"

definition example_report :: report where
  "example_report =
     \<lparr> totalRecords = 1, totalFieldsProcessed = 0, fieldsUpdated = 0, fieldsNotFound = 0,
       fieldsPoorMatch = 0, details = [] \<rparr>"

text \<open>
  A runtime for strings made of 7-bit characters, surrogates and the character
  \<open>U+1D400\<close> (mathematical bold capital A, the surrogate pair
  \<open>0xD835 0xDC00\<close>), whose compatibility decomposition is the letter \<open>A\<close>.
  On such strings NFKD replaces every occurrence of the pair by \<open>A\<close> and leaves
  7-bit characters and unpaired surrogates as they are.
\<close>

fun nfkd_bold_a :: "jsstring \<Rightarrow> jsstring" where
  "nfkd_bold_a (h # l # s) =
     (if h = 55349 \<and> l = 56320 then 65 # nfkd_bold_a s else h # nfkd_bold_a (l # s))"
| "nfkd_bold_a s = s"

definition bold_a_platform :: platform where
  "bold_a_platform = ascii_platform \<lparr> normalizeNFKD := nfkd_bold_a \<rparr>"

text \<open>
  A file named \<open>records.txt\<close> that holds no MARC data, and an XML library that reports
  a parse error for every document.
\<close>

definition example_text_file :: marc_file where
  "example_text_file =
     \<lparr> file_name = js ''records.txt'', file_size = 10,
       arrayBuffer = js ''not a MARC'', file_text = Some (js ''not a MARC'') \<rparr>"

definition rejecting_dom :: dom_api where
  "rejecting_dom = \<lparr> parseXML = (\<lambda>txt. None), serializeXML = (\<lambda>records. []) \<rparr>"

text \<open>
  The bytes of a record with the single control field \<open>001\<close> holding \<open>abcd\<close>:
  leader, one directory entry, the directory terminator, the field with its terminator,
  and the record terminator, 43 bytes in all.
\<close>

definition example_record_bytes :: "nat list" where
  "example_record_bytes =
     js ''00043nam a2200037   4500'' @ js ''001000500000'' @ [30] @ js ''abcd'' @ [30] @ [29]"

section \<open>What the decoder guarantees about its records\<close>

text \<open>
  The elements of a \<open>Uint8Array\<close> are bytes. What the binary codec relies on in
  \<open>TextDecoder\<close> and \<open>TextEncoder\<close> is collected in \<open>utf8_codec\<close>: 7-bit
  text is decoded and encoded unit by unit, and neither direction produces a subfield
  delimiter \<open>0x1F\<close> or a field terminator \<open>0x1E\<close> that was not in its input (a
  7-bit character is the one-byte sequence of that value and occurs in no longer
  sequence). A text makes the round trip when encoding and then decoding it gives it
  back; of the texts that the decoder yields, only those that start with the byte order
  mark \<open>U+FEFF\<close> do not, because the decoder drops a leading mark.
\<close>

definition is_bytes :: "nat list \<Rightarrow> bool" where
  "is_bytes bs = list_all (\<lambda>b. b < 256) bs"

definition no_delims :: "nat list \<Rightarrow> bool" where
  "no_delims v = list_all (\<lambda>x. x \<noteq> 31 \<and> x \<noteq> 30) v"

definition utf8_codec :: "platform \<Rightarrow> bool" where
  "utf8_codec P \<longleftrightarrow>
     (\<forall>s. is_ascii s \<longrightarrow> utf8_decode P s = s \<and> utf8_encode P s = s)
     \<and> (\<forall>bs. no_delims bs \<longrightarrow> no_delims (utf8_decode P bs))
     \<and> (\<forall>s. no_delims s \<longrightarrow> no_delims (utf8_encode P s))"

definition round_trips :: "platform \<Rightarrow> jsstring \<Rightarrow> bool" where
  "round_trips P s \<longleftrightarrow> utf8_decode P (utf8_encode P s) = s"

text \<open>
  The properties of decoded records on which the encoder relies. A subfield value holds
  neither the subfield delimiter nor the field terminator; an array of values has at
  least two elements and does not start with the empty string; a code or an indicator
  is one character with the value of a byte; the entries of \<open>subfields\<close> are in the
  property order of the object; a control field is a field whose tag starts with
  \<open>00\<close>.
\<close>

fun value_ok :: "sfvalue \<Rightarrow> bool" where
  "value_ok (Str v) = no_delims v"
| "value_ok (Arr vs) = (2 \<le> length vs \<and> hd vs \<noteq> [] \<and> list_all no_delims vs)"

definition code_ok :: "jsstring \<Rightarrow> bool" where
  "code_ok k = (length k = 1 \<and> is_bytes k)"

definition before :: "jsstring \<Rightarrow> jsstring \<Rightarrow> bool" where
  "before k1 k2 =
     (case array_index k1 of
        Some m \<Rightarrow> (case array_index k2 of Some n \<Rightarrow> m < n | None \<Rightarrow> True)
      | None \<Rightarrow> array_index k2 = None)"

definition sf_ok :: "subfields \<Rightarrow> bool" where
  "sf_ok sf =
     (sorted_wrt before (map fst sf) \<and> distinct (map fst sf)
      \<and> list_all (\<lambda>(k, v). code_ok k \<and> value_ok v) sf)"

fun field_ok :: "field \<Rightarrow> bool" where
  "field_ok (ControlField tg d) = starts_with_00 tg"
| "field_ok (DataField tg i1 i2 sf el) =
     (\<not> starts_with_00 tg \<and> code_ok i1 \<and> code_ok i2 \<and> el = None \<and> sf_ok sf)"

definition record_ok :: "marc_record \<Rightarrow> bool" where
  "record_ok r = list_all field_ok (rfields r)"

text \<open>The texts of a field: the data of a control field, the subfield values of a data field.\<close>

fun texts_of :: "field \<Rightarrow> jsstring list" where
  "texts_of (ControlField tg d) = [d]"
| "texts_of (DataField tg i1 i2 sf el) = concat (map (\<lambda>(code, v). values_of v) sf)"

section \<open>What the encoder writes\<close>

text \<open>
  The serialised bytes of one field, terminator included, and their number; the size of
  the rebuilt record (leader, directory with its terminator, field data, record
  terminator); the directory entries of a list of fields whose first field starts at
  \<open>currentOffset\<close>; the base address of a record with \<open>n\<close> fields; and the bytes of
  the rebuilt record in closed form.
\<close>

definition field_bytes :: "platform \<Rightarrow> field \<Rightarrow> nat list" where
  "field_bytes P f = (case fieldData_of P f of Inl e \<Rightarrow> [] | Inr fieldData \<Rightarrow> fieldData @ [30])"

definition field_size :: "platform \<Rightarrow> field \<Rightarrow> nat" where
  "field_size P f = length (field_bytes P f)"

definition record_size :: "platform \<Rightarrow> marc_record \<Rightarrow> nat" where
  "record_size P r =
     24 + (12 * length (rfields r) + 1) + sum_list (map (field_size P) (rfields r)) + 1"

fun entries_from :: "platform \<Rightarrow> field list \<Rightarrow> nat \<Rightarrow> nat list list" where
  "entries_from P [] currentOffset = []"
| "entries_from P (f # fs) currentOffset =
     directoryEntry P (tag f) (field_size P f) currentOffset
     # entries_from P fs (currentOffset + field_size P f)"

definition baseAddress_of :: "nat \<Rightarrow> nat" where
  "baseAddress_of n = 24 + (12 * n + 1)"

definition rebuilt_bytes :: "platform \<Rightarrow> marc_record \<Rightarrow> nat list" where
  "rebuilt_bytes P r =
     rebuild_leader P (leader r) (record_size P r) (baseAddress_of (length (rfields r)))
     @ concat (entries_from P (rfields r) 0) @ [30]
     @ concat (map (field_bytes P) (rfields r)) @ [29]"

text \<open>
  What a reader finds in the bytes \<open>out\<close> of a rebuilt record: the record length and
  the base address in the leader, and the length in the directory entry number \<open>i\<close>.
  The record is consistent when the base address is 24 plus the length of the directory,
  every entry records the serialised length of its field, and the record length is the
  base address plus the length of the field data plus 1, which is also the number of
  bytes of \<open>out\<close>.
\<close>

definition leader_recordLength :: "platform \<Rightarrow> nat list \<Rightarrow> int option" where
  "leader_recordLength P out =
     parseInt10 (substring (utf8_decode P (slice out (Some 0) (Some 24))) 0 5)"

definition leader_baseAddress :: "platform \<Rightarrow> nat list \<Rightarrow> int option" where
  "leader_baseAddress P out =
     parseInt10 (substring (utf8_decode P (slice out (Some 0) (Some 24))) 12 17)"

definition entry_fieldLength :: "platform \<Rightarrow> nat list \<Rightarrow> nat \<Rightarrow> int option" where
  "entry_fieldLength P out i =
     parseInt10 (utf8_decode P (slice out (Some (24 + 12 * int i + 3)) (Some (24 + 12 * int i + 7))))"

definition consistent :: "platform \<Rightarrow> marc_record \<Rightarrow> nat list \<Rightarrow> bool" where
  "consistent P r out \<longleftrightarrow>
     (let n = length (rfields r);
          directoryLength = 12 * n + 1;
          fieldDataLength = sum_list (map (field_size P) (rfields r))
      in leader_baseAddress P out = Some (int (24 + directoryLength))
         \<and> (\<forall>i < n. entry_fieldLength P out i = Some (int (field_size P (rfields r ! i))))
         \<and> leader_recordLength P out = Some (int (24 + directoryLength + fieldDataLength + 1))
         \<and> length out = 24 + directoryLength + fieldDataLength + 1)"

text \<open>
  A record fits the format when its leader is 24 7-bit characters, its tags are three
  7-bit characters, its texts make the round trip through the codec, every serialised
  field has at most 9999 bytes and the rebuilt record has at most 99999 bytes, which is
  what the four and five digits of the directory and the leader can express.
\<close>

definition field_fits :: "platform \<Rightarrow> field \<Rightarrow> bool" where
  "field_fits P f \<longleftrightarrow>
     length (tag f) = 3 \<and> is_ascii (tag f) \<and> field_size P f \<le> 9999
     \<and> list_all (round_trips P) (texts_of f)"

definition encodable :: "platform \<Rightarrow> marc_record \<Rightarrow> bool" where
  "encodable P r \<longleftrightarrow>
     length (leader r) = 24 \<and> is_ascii (leader r)
     \<and> record_size P r \<le> 99999
     \<and> list_all (field_fits P) (rfields r)"

section \<open>More sample data\<close>

text \<open>
  The bytes of a record with two fields, 78 bytes in all: the control field \<open>001\<close>
  holding \<open>abcd\<close>, and the data field \<open>100\<close> with the indicators \<open>1\<close> and
  blank and the subfields \<open>$aSmith$aJohn$d1900-\<close>, in which the code \<open>a\<close> is
  repeated.
\<close>

definition example_name_record_bytes :: "nat list" where
  "example_name_record_bytes =
     js ''00078nam a2200049   4500'' @ js ''001000500000'' @ js ''100002300005'' @ [30]
     @ js ''abcd'' @ [30]
     @ js ''1 '' @ [31] @ js ''aSmith'' @ [31] @ js ''aJohn'' @ [31] @ js ''d1900-'' @ [30]
     @ [29]"


text \<open>
  A buffer of 25 bytes: a leader that announces a record of 25 bytes with base address
  40, and one more byte, the character \<open>7\<close>, where the directory starts.
\<close>

definition example_short_buffer :: "nat list" where
  "example_short_buffer = js ''00025nam a2200040   4500'' @ js ''7''"

section \<open>Basic facts\<close>

lemma ascii_exact_ascii_platform: "ascii_exact ascii_platform"
  by (simp add: ascii_exact_def ascii_platform_def)

lemma sort_mset_cong: "mset xs = mset ys \<Longrightarrow> sort xs = sort (ys::nat list)"
  by (metis properties_for_sort sorted_sort mset_sort)

subsection \<open>Well-formed strings\<close>

lemma utf16_units_not_punct:
  "filter (\<lambda>c. \<not> is_punct c) (utf16_units c) = (if is_punct c then [] else utf16_units c)"
  by (simp add: utf16_units_def is_punct_def)

lemma filter_punct_utf16:
  "filter (\<lambda>c. \<not> is_punct c) (utf16 cps) = utf16 (filter (\<lambda>c. \<not> is_punct c) cps)"
  by (induction cps) (simp_all add: utf16_def utf16_units_not_punct)

lemma mset_concat_map_cong:
  assumes "mset xs = mset ys"
  shows "mset (concat (map d xs)) = mset (concat (map d ys))"
proof -
  from assms have "image_mset (\<lambda>x. mset (d x)) (mset xs) = image_mset (\<lambda>x. mset (d x)) (mset ys)"
    by simp
  then have "sum_mset (image_mset (\<lambda>x. mset (d x)) (mset xs))
           = sum_mset (image_mset (\<lambda>x. mset (d x)) (mset ys))"
    by simp
  moreover have "mset (concat (map d zs)) = sum_mset (image_mset (\<lambda>x. mset (d x)) (mset zs))" for zs
    by (induction zs) simp_all
  ultimately show ?thesis
    by simp
qed

text \<open>Without a normalisation step, the 7-bit code units of a string are its 7-bit characters.\<close>

lemma ascii_units:
  "filter (\<lambda>c. c \<le> 127) (utf16 cps) = concat (map (\<lambda>c. if c \<le> 127 then [c] else []) cps)"
  by (induction cps) (simp_all add: utf16_def utf16_units_def)

subsection \<open>The candidate loop\<close>

lemma best_loop_keep:
  "\<forall>x \<in> set items. bd \<le> enat (levenshteinDistance ni (scoring_form P (snd x)))
   \<Longrightarrow> best_loop P ni items (bm, bd) = (bm, bd)"
proof (induction items)
  case Nil
  show ?case by simp
next
  case (Cons x xs)
  obtain l lab where x: "x = (l, lab)" by (cases x)
  from Cons.prems have "\<not> enat (levenshteinDistance ni (scoring_form P lab)) < bd"
    by (simp add: x not_less)
  with Cons show ?case by (simp add: x Let_def)
qed

lemma best_loop_select:
  assumes "\<exists>x \<in> set items. enat (levenshteinDistance ni (scoring_form P (snd x))) < bd"
  shows "\<exists>i < length items.
           best_loop P ni items (bm, bd) =
             (Some \<lparr> lccn = fst (items ! i), label = Some (snd (items ! i)),
                      distance = levenshteinDistance ni (scoring_form P (snd (items ! i))) \<rparr>,
              enat (levenshteinDistance ni (scoring_form P (snd (items ! i)))))
           \<and> enat (levenshteinDistance ni (scoring_form P (snd (items ! i)))) < bd
           \<and> (\<forall>j < length items. levenshteinDistance ni (scoring_form P (snd (items ! i)))
                  \<le> levenshteinDistance ni (scoring_form P (snd (items ! j))))
           \<and> (\<forall>j < i. levenshteinDistance ni (scoring_form P (snd (items ! i)))
                  < levenshteinDistance ni (scoring_form P (snd (items ! j))))"
  using assms
proof (induction items arbitrary: bm bd)
  case Nil
  then show ?case by simp
next
  case (Cons x xs)
  let ?d = "\<lambda>y. levenshteinDistance ni (scoring_form P (snd y))"
  obtain l lab where x: "x = (l, lab)" by (cases x)
  show ?case
  proof (cases "enat (?d x) < bd")
    case True
    let ?m = "Some \<lparr> lccn = l, label = Some lab, distance = ?d x \<rparr>"
    from True have step: "best_loop P ni (x # xs) (bm, bd) = best_loop P ni xs (?m, enat (?d x))"
      by (simp add: x Let_def)
    show ?thesis
    proof (cases "\<exists>y \<in> set xs. enat (?d y) < enat (?d x)")
      case better: True
      from Cons.IH [OF better, of ?m] obtain i where i: "i < length xs"
        and r: "best_loop P ni xs (?m, enat (?d x)) =
                  (Some \<lparr> lccn = fst (xs ! i), label = Some (snd (xs ! i)), distance = ?d (xs ! i) \<rparr>,
                   enat (?d (xs ! i)))"
        and lt: "enat (?d (xs ! i)) < enat (?d x)"
        and mn: "\<forall>j < length xs. ?d (xs ! i) \<le> ?d (xs ! j)"
        and fs: "\<forall>j < i. ?d (xs ! i) < ?d (xs ! j)"
        by blast
      have "\<forall>j < length (x # xs). ?d ((x # xs) ! Suc i) \<le> ?d ((x # xs) ! j)"
      proof (intro allI impI)
        fix j assume "j < length (x # xs)"
        then show "?d ((x # xs) ! Suc i) \<le> ?d ((x # xs) ! j)"
          using lt mn by (cases j) auto
      qed
      moreover have "\<forall>j < Suc i. ?d ((x # xs) ! Suc i) < ?d ((x # xs) ! j)"
      proof (intro allI impI)
        fix j assume "j < Suc i"
        then show "?d ((x # xs) ! Suc i) < ?d ((x # xs) ! j)"
          using lt fs by (cases j) auto
      qed
      moreover from order.strict_trans [OF lt True] have "enat (?d ((x # xs) ! Suc i)) < bd"
        by simp
      moreover from step r have "best_loop P ni (x # xs) (bm, bd) =
          (Some \<lparr> lccn = fst ((x # xs) ! Suc i), label = Some (snd ((x # xs) ! Suc i)),
                   distance = ?d ((x # xs) ! Suc i) \<rparr>, enat (?d ((x # xs) ! Suc i)))"
        by simp
      moreover from i have "Suc i < length (x # xs)" by simp
      ultimately show ?thesis by blast
    next
      case False
      then have keep: "\<forall>y \<in> set xs. enat (?d x) \<le> enat (?d y)"
        by (auto simp: not_less)
      from best_loop_keep [OF keep] step
      have "best_loop P ni (x # xs) (bm, bd) = (?m, enat (?d x))"
        by simp
      moreover have "\<forall>j < length (x # xs). ?d ((x # xs) ! 0) \<le> ?d ((x # xs) ! j)"
      proof (intro allI impI)
        fix j assume "j < length (x # xs)"
        then show "?d ((x # xs) ! 0) \<le> ?d ((x # xs) ! j)"
          using keep by (cases j) auto
      qed
      ultimately show ?thesis
        using True by (intro exI [of _ 0]) (simp add: x)
    qed
  next
    case False
    then have step: "best_loop P ni (x # xs) (bm, bd) = best_loop P ni xs (bm, bd)"
      by (simp add: x Let_def)
    from False Cons.prems have ex: "\<exists>y \<in> set xs. enat (?d y) < bd"
      by auto
    from Cons.IH [OF ex, of bm] obtain i where i: "i < length xs"
      and r: "best_loop P ni xs (bm, bd) =
                (Some \<lparr> lccn = fst (xs ! i), label = Some (snd (xs ! i)), distance = ?d (xs ! i) \<rparr>,
                 enat (?d (xs ! i)))"
      and lt: "enat (?d (xs ! i)) < bd"
      and mn: "\<forall>j < length xs. ?d (xs ! i) \<le> ?d (xs ! j)"
      and fs: "\<forall>j < i. ?d (xs ! i) < ?d (xs ! j)"
      by blast
    from lt False have lt': "?d (xs ! i) < ?d x"
      by (metis enat_ord_simps(2) not_less order.strict_trans2)
    have "\<forall>j < length (x # xs). ?d ((x # xs) ! Suc i) \<le> ?d ((x # xs) ! j)"
    proof (intro allI impI)
      fix j assume "j < length (x # xs)"
      then show "?d ((x # xs) ! Suc i) \<le> ?d ((x # xs) ! j)"
        using lt' mn by (cases j) auto
    qed
    moreover have "\<forall>j < Suc i. ?d ((x # xs) ! Suc i) < ?d ((x # xs) ! j)"
    proof (intro allI impI)
      fix j assume "j < Suc i"
      then show "?d ((x # xs) ! Suc i) < ?d ((x # xs) ! j)"
        using lt' fs by (cases j) auto
    qed
    moreover from step r have "best_loop P ni (x # xs) (bm, bd) =
        (Some \<lparr> lccn = fst ((x # xs) ! Suc i), label = Some (snd ((x # xs) ! Suc i)),
                 distance = ?d ((x # xs) ! Suc i) \<rparr>, enat (?d ((x # xs) ! Suc i)))"
      by simp
    moreover from i have "Suc i < length (x # xs)" by simp
    moreover from lt have "enat (?d ((x # xs) ! Suc i)) < bd" by simp
    ultimately show ?thesis by blast
  qed
qed

subsection \<open>Evaluating the subfields object\<close>

lemmas obj_simps = add_subfield_def obj_set_def array_index_def fromCharCode_at_def is_digit_def
  nat_of_digits_def

subsection \<open>Report entries\<close>

lemma status_values:
  "js ''updated'' \<noteq> js ''not_found''" "js ''updated'' \<noteq> js ''poor_match''"
  "js ''updated'' \<noteq> js ''error''" "js ''poor_match'' \<noteq> js ''not_found''"
  "js ''poor_match'' \<noteq> js ''error''" "js ''not_found'' \<noteq> js ''error''"
  by (simp_all add: js_def)

lemma entry_status [simp]:
  "status (not_found_entry i tg nm why) = js ''not_found''"
  "status (poor_match_entry i tg nm m) = js ''poor_match''"
  "status (error_entry i tg nm) = js ''error''"
  "status (updated_entry i tg nm uri m) = js ''updated''"
  by (simp_all add: not_found_entry_def poor_match_entry_def error_entry_def updated_entry_def)

lemma updated_entry_fields [simp]:
  "lccnUri (updated_entry i tg nm uri m) = Some uri"
  "levenshtein (updated_entry i tg nm uri m) = Some (distance m)"
  by (simp_all add: updated_entry_def)

subsection \<open>The resolver on a list of candidates\<close>

lemmas pipeline_simps = processField_def Let_def MAX_LEVENSHTEIN_DISTANCE_def

lemma findBest_nonempty:
  assumes "items \<noteq> []"
  shows "\<exists>k < length items.
           findBestLCCNMatch P nm (LccnList items) =
             Some \<lparr> lccn = fst (items ! k), label = Some (snd (items ! k)),
                     distance = candidate_distance P nm (items ! k) \<rparr>
           \<and> (\<forall>j < length items. candidate_distance P nm (items ! k) \<le> candidate_distance P nm (items ! j))
           \<and> (\<forall>j < k. candidate_distance P nm (items ! k) < candidate_distance P nm (items ! j))"
proof -
  from assms have "\<exists>x \<in> set items.
      enat (levenshteinDistance (scoring_form P nm) (scoring_form P (snd x))) < \<infinity>"
    by (cases items) auto
  from best_loop_select [OF this, of None] obtain k where "k < length items"
    and "best_loop P (scoring_form P nm) items (None, \<infinity>) =
           (Some \<lparr> lccn = fst (items ! k), label = Some (snd (items ! k)),
                    distance = candidate_distance P nm (items ! k) \<rparr>,
            enat (candidate_distance P nm (items ! k)))"
    and "\<forall>j < length items. candidate_distance P nm (items ! k) \<le> candidate_distance P nm (items ! j)"
    and "\<forall>j < k. candidate_distance P nm (items ! k) < candidate_distance P nm (items ! j)"
    unfolding candidate_distance_def by blast
  then show ?thesis
    by (intro exI [of _ k]) simp
qed

subsection \<open>The Levenshtein distance\<close>

text \<open>
  \<open>edit_distance\<close> is the least number of edits, it does not change when both texts
  are reversed, and \<open>levenshteinDistance\<close> computes it: the row of the matrix for the
  first \<open>i\<close> characters of \<open>str1\<close> holds the distances from these characters to
  the prefixes of \<open>str2\<close>.
\<close>

lemma edits_insert_all: "edits (length ys) [] ys"
  by (induction ys) (auto intro: edits.intros)

lemma edits_delete_all: "edits (length xs) xs []"
  by (induction xs) (auto intro: edits.intros)

lemma edit_distance_Nil2 [simp]: "edit_distance xs [] = length xs"
  by (cases xs) simp_all

lemma edits_edit_distance: "edits (edit_distance xs ys) xs ys"
proof (induction xs ys rule: edit_distance.induct)
  case (1 ys)
  show ?case by (simp add: edits_insert_all)
next
  case (2 x xs)
  from edits_delete_all [of "x # xs"] show ?case by simp
next
  case (3 x xs y ys)
  let ?a = "edit_distance xs (y # ys) + 1"
  let ?b = "edit_distance (x # xs) ys + 1"
  let ?c = "edit_distance xs ys + (if x = y then 0 else 1)"
  from 3 have a: "edits ?a (x # xs) (y # ys)"
    by (auto intro: edits.Delete)
  from 3 have b: "edits ?b (x # xs) (y # ys)"
    by (auto intro: edits.Insert)
  from 3 have c: "edits ?c (x # xs) (y # ys)"
    by (auto intro: edits.Keep edits.Replace)
  have "min ?a (min ?b ?c) = ?a \<or> min ?a (min ?b ?c) = ?b \<or> min ?a (min ?b ?c) = ?c"
    by (simp add: min_def)
  with a b c show ?case
    by (simp only: edit_distance.simps) metis
qed

lemma edit_distance_le: "edits n xs ys \<Longrightarrow> edit_distance xs ys \<le> n"
proof (induction rule: edits.induct)
  case Empty
  show ?case by simp
next
  case (Keep n xs ys x)
  then show ?case by (simp add: min_def)
next
  case (Replace n xs ys x y)
  then show ?case by (simp add: min_def)
next
  case (Delete n xs ys x)
  then show ?case by (cases ys) (simp_all add: min_def)
next
  case (Insert n xs ys y)
  then show ?case by (cases xs) (simp_all add: min_def)
qed

lemma edits_snoc_keep: "edits n xs ys \<Longrightarrow> edits n (xs @ [x]) (ys @ [x])"
  by (induction rule: edits.induct) (auto intro: edits.intros)

lemma edits_snoc_replace: "edits n xs ys \<Longrightarrow> edits (Suc n) (xs @ [x]) (ys @ [y])"
  by (induction rule: edits.induct) (auto intro: edits.intros)

lemma edits_snoc_delete: "edits n xs ys \<Longrightarrow> edits (Suc n) (xs @ [x]) ys"
  by (induction rule: edits.induct) (auto intro: edits.intros)

lemma edits_snoc_insert: "edits n xs ys \<Longrightarrow> edits (Suc n) xs (ys @ [y])"
  by (induction rule: edits.induct) (auto intro: edits.intros)

lemma edits_rev: "edits n xs ys \<Longrightarrow> edits n (rev xs) (rev ys)"
  by (induction rule: edits.induct)
    (auto intro: edits.Empty edits_snoc_keep edits_snoc_replace edits_snoc_delete edits_snoc_insert)

lemma edit_distance_rev: "edit_distance (rev xs) (rev ys) = edit_distance xs ys"
proof (rule antisym)
  from edits_rev [OF edits_edit_distance [of xs ys]]
  show "edit_distance (rev xs) (rev ys) \<le> edit_distance xs ys"
    by (rule edit_distance_le)
next
  from edits_rev [OF edits_edit_distance [of "rev xs" "rev ys"]]
  show "edit_distance xs ys \<le> edit_distance (rev xs) (rev ys)"
    by (auto dest: edit_distance_le)
qed

text \<open>The distance is the least number of edits.\<close>

lemma edit_distance_least:
  "edits (edit_distance xs ys) xs ys \<and> (\<forall>n. edits n xs ys \<longrightarrow> edit_distance xs ys \<le> n)"
  by (simp add: edits_edit_distance edit_distance_le)


lemma lev_cells_row:
  "lev_cells c suf (edit_distance ra rp) (edit_distance (c # ra) rp) (ed_row ra rp suf)
     = ed_row (c # ra) rp suf"
proof (induction suf arbitrary: rp)
  case Nil
  show ?case by simp
next
  case (Cons d ds)
  have "lev_cells c (d # ds) (edit_distance ra rp) (edit_distance (c # ra) rp) (ed_row ra rp (d # ds))
      = edit_distance (c # ra) (d # rp)
        # lev_cells c ds (edit_distance ra (d # rp)) (edit_distance (c # ra) (d # rp)) (ed_row ra (d # rp) ds)"
    by (simp add: Let_def)
  with Cons [of "d # rp"] show ?case
    by simp
qed

lemma upt_ed_row: "[length rp ..< length rp + length s + 1] = length rp # ed_row [] rp s"
proof (induction s arbitrary: rp)
  case Nil
  show ?case by simp
next
  case (Cons d ds)
  have "[length rp ..< length rp + length (d # ds) + 1]
      = length rp # [length (d # rp) ..< length (d # rp) + length ds + 1]"
    by (simp add: upt_conv_Cons del: upt_Suc)
  with Cons [of "d # rp"] show ?case
    by simp
qed

lemma lev_rows_rows:
  "lev_rows cs s2 (length ra + 1) (edit_distance ra [] # ed_row ra [] s2)
     = edit_distance (rev cs @ ra) [] # ed_row (rev cs @ ra) [] s2"
proof (induction cs arbitrary: ra)
  case Nil
  show ?case by simp
next
  case (Cons c cs)
  have "lev_cells c s2 (length ra) (Suc (length ra)) (ed_row ra [] s2) = ed_row (c # ra) [] s2"
    using lev_cells_row [of c s2 ra "[]"] by simp
  with Cons [of "c # ra"] show ?case
    by simp
qed

lemma last_ed_row: "last (edit_distance a rp # ed_row a rp s) = edit_distance a (rev s @ rp)"
  by (induction s arbitrary: rp) simp_all

lemma levenshteinDistance_edit_distance: "levenshteinDistance s1 s2 = edit_distance s1 s2"
proof -
  have "[0 ..< length s2 + 1] = edit_distance [] [] # ed_row ([] :: nat list) [] s2"
    using upt_ed_row [of "[]" s2] by simp
  with lev_rows_rows [of s1 s2 "[]"]
  have "lev_rows s1 s2 1 [0 ..< length s2 + 1] = edit_distance (rev s1) [] # ed_row (rev s1) [] s2"
    by simp
  then have "levenshteinDistance s1 s2 = edit_distance (rev s1) (rev s2)"
    using last_ed_row [of "rev s1" "[]" s2] by (simp add: levenshteinDistance_def)
  then show ?thesis
    by (simp add: edit_distance_rev)
qed

lemma candidate_distance_spec:
  "candidate_distance P nm item = normalized_distance_spec P nm (snd item)"
  by (simp add: candidate_distance_def normalized_distance_spec_def scoring_form_def
      levenshteinDistance_edit_distance is_lower_letter_def is_digit_def)

subsection \<open>Writing subfield 0\<close>

text \<open>After \<open>obj[k] = v\<close> the object holds \<open>v\<close> under \<open>k\<close> and is unchanged elsewhere.\<close>

lemma map_of_insert_index:
  "k \<notin> fst ` set obj \<Longrightarrow>
   map_of (insert_index n k v obj) k' = (if k' = k then Some v else map_of obj k')"
  by (induction obj) (auto split: option.splits)

lemma map_of_replace_other:
  "k' \<noteq> k \<Longrightarrow>
   map_of (map (\<lambda>(k', v'). if k' = k then (k', v) else (k', v')) obj) k' = map_of obj k'"
  by (induction obj) auto

lemma map_of_replace_same:
  "k \<in> fst ` set obj \<Longrightarrow>
   map_of (map (\<lambda>(k', v'). if k' = k then (k', v) else (k', v')) obj) k = Some v"
  by (induction obj) auto

lemma map_of_obj_set:
  "map_of (obj_set obj k v) k' = (if k' = k then Some v else map_of obj k')"
proof (cases "k \<in> fst ` set obj")
  case True
  then show ?thesis
    by (cases "k' = k") (simp_all add: obj_set_def map_of_replace_other map_of_replace_same)
next
  case False
  then have "map_of obj k = None"
    by (simp add: map_of_eq_None_iff)
  with False show ?thesis
    by (auto simp: obj_set_def map_of_insert_index map_add_def split: option.splits)
qed

lemma subfields_setSubfieldZero:
  "map_of (subfields (setSubfieldZero (DataField tg i1 i2 sf el) uri)) c
     = (if c = js ''0'' then Some (Str uri) else map_of sf c)"
  by (simp add: map_of_obj_set)

lemma subfields_updateSubfieldZero:
  "updateSubfieldZero (DataField tg i1 i2 sf (Some e)) uri = Inr f' \<Longrightarrow>
   map_of (subfields f') c = (if c = js ''0'' then Some (Str uri) else map_of sf c)"
  by (auto simp: map_of_obj_set)

subsection \<open>The outcomes of one field\<close>


lemma written_field:
  assumes "fileType = js ''xml'' \<longrightarrow> el \<noteq> None"
  shows "\<exists>f'. (if fileType = js ''xml'' then updateSubfieldZero (DataField tg i1 i2 sf el) uri
                else Inr (setSubfieldZero (DataField tg i1 i2 sf el) uri)) = Inr f'
           \<and> tag f' = tg \<and> ind1 f' = i1 \<and> ind2 f' = i2
           \<and> (\<forall>c. map_of (subfields f') c = (if c = js ''0'' then Some (Str uri) else map_of sf c))"
proof (cases "fileType = js ''xml''")
  case True
  with assms obtain e where "el = Some e"
    by auto
  with True show ?thesis
    by (simp add: map_of_obj_set)
next
  case False
  then show ?thesis
    by (simp add: map_of_obj_set)
qed



subsection \<open>The sample data\<close>

lemma example_tag: "js ''100'' \<in> set nameFieldTags"
  by (simp add: nameFieldTags_def js_def)

lemma example_name: "extractNameFromSubfields example_subfields = js ''S. E. A.''"
  by (simp add: example_subfields_def extractNameFromSubfields_def js_def trim_def is_whitespace_def)

lemma example_name_nonempty: "extractNameFromSubfields example_subfields \<noteq> []"
  by (simp add: example_name js_def)

lemma example_lookup: "lookupDecoder_get [Some d] ((\<lambda>key. 0) k) = Some d"
  by (simp add: lookupDecoder_get_def)

lemmas scoring_simps = scoring_form_def ascii_platform_def ascii_lower_def is_lower_letter_def
  is_digit_def levenshteinDistance_def js_def upt_rec

lemma example_name_10: "extractNameFromSubfields example_subfields_10 = js ''Smith, John A.''"
  by (simp add: example_subfields_10_def extractNameFromSubfields_def js_def trim_def is_whitespace_def)

lemma example_name_11: "extractNameFromSubfields example_subfields_11 = js ''Smith, John Al''"
  by (simp add: example_subfields_11_def extractNameFromSubfields_def js_def trim_def is_whitespace_def)

lemma example_match_10:
  "findBestLCCNMatch ascii_platform (js ''Smith, John A.'') (LccnList example_far_candidates)
     = Some \<lparr> lccn = 179041849, label = Some (js ''X.''), distance = 10 \<rparr>"
  by (simp add: example_far_candidates_def scoring_simps)

lemma example_match_11:
  "findBestLCCNMatch ascii_platform (js ''Smith, John Al'') (LccnList example_far_candidates)
     = Some \<lparr> lccn = 179041849, label = Some (js ''X.''), distance = 11 \<rparr>"
  by (simp add: example_far_candidates_def scoring_simps)

lemma example_match_unconvertible:
  "findBestLCCNMatch ascii_platform (js ''Smith, John A.'') (LccnList example_unconvertible_candidates)
     = Some \<lparr> lccn = 779041849, label = Some (js ''X.''), distance = 10 \<rparr>"
  by (simp add: example_unconvertible_candidates_def scoring_simps)

lemma createLCCNUri_179041849:
  "createLCCNUri 179041849 = Some (js ''http://id.loc.gov/authorities/names/nb79041849'')"
  by (simp add: createLCCNUri_def convertLCCN_def String_of_def digits_of.simps prefixMap_def js_def)

lemma createLCCNUri_779041849: "createLCCNUri 779041849 = None"
  by (simp add: createLCCNUri_def convertLCCN_def String_of_def digits_of.simps prefixMap_def)

subsection \<open>Which errors the stages can raise\<close>

lemma processField_error:
  assumes "processField P fileType trie table i f rep = Inl e"
  shows "e = TypeError"
proof (cases f)
  case (ControlField tg d)
  with assms show ?thesis by (simp add: processField_def split: if_splits)
next
  case (DataField tg i1 i2 sf el)
  have upd: "updateSubfieldZero g uri = Inl e' \<Longrightarrow> e' = TypeError" for g uri e'
    by (cases "(g, uri)" rule: updateSubfieldZero.cases) auto
  from assms DataField show ?thesis
    by (auto simp: pipeline_simps dest: upd split: if_splits option.splits sum.splits)
qed

lemma processFields_error:
  "processFields P fileType trie table i fs rep = Inl e \<Longrightarrow> e = TypeError"
  by (induction fs arbitrary: rep) (auto dest: processField_error split: sum.splits)

lemma processRecords_error:
  "processRecords P fileType trie table i rs rep = Inl e \<Longrightarrow> e = TypeError"
  by (induction rs arbitrary: i rep) (auto dest: processFields_error split: sum.splits)

lemma ta_set_error: "ta_set t s off = Inl e \<Longrightarrow> e = RangeError"
  by (simp add: ta_set_def split: if_splits)

lemma fieldData_of_error: "fieldData_of P f = Inl e \<Longrightarrow> e = TypeError"
  by (cases f) (auto split: if_splits)

lemma rebuild_fields_error: "rebuild_fields P fs cur = Inl e \<Longrightarrow> e = TypeError"
  by (induction fs arbitrary: cur) (auto simp: Let_def dest: fieldData_of_error split: sum.splits)

lemma set_entries_error: "set_entries d es off = Inl e \<Longrightarrow> e = RangeError"
  by (induction es arbitrary: d off) (auto dest: ta_set_error split: sum.splits)

lemma rebuildRecord_error: "rebuildRecord P r = Inl e \<Longrightarrow> e = TypeError \<or> e = RangeError"
  by (auto simp: rebuildRecord_def Let_def dest: rebuild_fields_error set_entries_error ta_set_error
      split: sum.splits prod.splits)

lemma exportBinary_error: "exportBinary P rs = Inl e \<Longrightarrow> e = TypeError \<or> e = RangeError"
  by (induction rs arbitrary: e) (auto dest: rebuildRecord_error split: sum.splits)

lemma writeOutput_error: "writeOutput P D fileType rs = Inl e \<Longrightarrow> e = TypeError \<or> e = RangeError"
  by (auto simp: writeOutput_def dest: exportBinary_error split: if_splits sum.splits)

lemma detectFileType_values: "detectFileType P file = js ''xml'' \<or> detectFileType P file = js ''binary''"
  by (simp add: detectFileType_def Let_def)

lemma readRecords_supported:
  "readRecords P D (detectFileType P file) file \<noteq> Inl UnsupportedFileType"
  using detectFileType_values [of P "file"]
  by (auto simp: readRecords_def split: option.splits)

lemma processMARCFile_supported:
  "processMARCFile P D trie table file \<noteq> Inl UnsupportedFileType"
proof
  assume a: "processMARCFile P D trie table file = Inl UnsupportedFileType"
  show False
  proof (cases "readRecords P D (detectFileType P file) file")
    case (Inl e)
    with a readRecords_supported [of P D "file"] show False
      by (simp add: processMARCFile_def)
  next
    case (Inr records)
    with a show False
      by (auto simp: processMARCFile_def Let_def dest: processRecords_error writeOutput_error
          split: sum.splits prod.splits)
  qed
qed

lemma example_text_file_type: "detectFileType ascii_platform example_text_file = js ''xml''"
  by (simp add: detectFileType_def example_text_file_def ascii_platform_def endsWith_def js_def
      ascii_lower_def)

subsection \<open>Evaluating the decoder\<close>

lemmas decode_simps = parse_def parse_from.simps parseRecord_def parseDirectory.simps parseField_def
  slice_def rel_index_def parseInt10_def substring_def Let_def is_whitespace_def is_digit_def
  nat_of_digits_def starts_with_00_def ascii_platform_def js_def

subsection \<open>Decimal numbers\<close>

lemma digits_of_digits: "list_all is_digit (digits_of n)"
proof (induction n rule: digits_of.induct)
  case (1 n)
  show ?case
  proof (cases "n < 10")
    case True
    then show ?thesis by (subst digits_of.simps) (simp add: is_digit_def)
  next
    case False
    with 1 have "list_all is_digit (digits_of (n div 10))" by simp
    moreover have "is_digit (48 + n mod 10)" by (simp add: is_digit_def)
    ultimately show ?thesis using False by (subst digits_of.simps) simp
  qed
qed

lemma digits_of_nonempty: "digits_of n \<noteq> []"
  by (subst digits_of.simps) simp

lemma nat_of_digits_snoc: "nat_of_digits (ds @ [d]) = 10 * nat_of_digits ds + (d - 48)"
  by (simp add: nat_of_digits_def)

lemma nat_of_digits_digits_of: "nat_of_digits (digits_of n) = n"
proof (induction n rule: digits_of.induct)
  case (1 n)
  show ?case
  proof (cases "n < 10")
    case True
    then show ?thesis by (subst digits_of.simps) (simp add: nat_of_digits_def)
  next
    case False
    with 1 have "nat_of_digits (digits_of (n div 10)) = n div 10" by simp
    with False show ?thesis by (subst digits_of.simps) (simp add: nat_of_digits_snoc)
  qed
qed

lemma length_digits_of: "n < 10 ^ k \<Longrightarrow> 0 < k \<Longrightarrow> length (digits_of n) \<le> k"
proof (induction n arbitrary: k rule: digits_of.induct)
  case (1 n)
  show ?case
  proof (cases "n < 10")
    case True
    with 1 show ?thesis by (subst digits_of.simps) simp
  next
    case False
    from 1(3) obtain k' where k1: "k = Suc k'"
      by (cases k) auto
    with 1(2) False have k2: "0 < k'"
      by (cases k') auto
    note k = k1 k2
    from 1(2) k have "n div 10 < 10 ^ k'"
      by (simp add: less_mult_imp_div_less mult.commute)
    with 1(1) False k have "length (digits_of (n div 10)) \<le> k'" by simp
    with False k show ?thesis by (subst digits_of.simps) simp
  qed
qed

lemma nat_of_digits_zeros: "nat_of_digits (replicate z 48 @ ds) = nat_of_digits ds"
proof -
  have "foldl (\<lambda>a d. 10 * a + (d - 48)) 0 (replicate z 48) = (0::nat)"
    by (induction z) simp_all
  then show ?thesis by (simp add: nat_of_digits_def)
qed

text \<open>A zero-padded decimal number reads back as the number.\<close>

lemma parseInt10_padStart: "parseInt10 (padStart k 48 (String_of (int n))) = Some (int n)"
proof -
  let ?s = "padStart k 48 (String_of (int n))"
  have d: "list_all is_digit ?s"
    using digits_of_digits [of n] by (auto simp: padStart_def String_of_def is_digit_def list_all_iff)
  have ne: "?s \<noteq> []"
    using digits_of_nonempty [of n] by (simp add: padStart_def String_of_def)
  from d ne have w: "dropWhile is_whitespace ?s = ?s"
    by (cases ?s) (auto simp: is_digit_def is_whitespace_def)
  from d ne have h: "hd ?s \<noteq> 45" "hd ?s \<noteq> 43"
    by (cases ?s; auto simp: is_digit_def)+
  from d have t: "takeWhile is_digit ?s = ?s"
    by (simp add: list_all_iff)
  have v: "nat_of_digits ?s = n"
    by (simp add: padStart_def String_of_def nat_of_digits_zeros nat_of_digits_digits_of)
  show ?thesis
    unfolding parseInt10_def Let_def w using h ne v by (simp add: t)
qed

lemma length_padStart: "n < 10 ^ k \<Longrightarrow> 0 < k \<Longrightarrow> length (padStart k 48 (String_of (int n))) = k"
  using length_digits_of [of n k] by (simp add: padStart_def String_of_def)

lemma is_ascii_padStart: "is_ascii (padStart k 48 (String_of (int n)))"
  using digits_of_digits [of n]
  by (auto simp: padStart_def String_of_def is_ascii_def is_digit_def list_all_iff)

lemma padStart_digit_hd: "padStart k 48 (String_of (int n)) = c # cs \<Longrightarrow> c \<noteq> 0"
  using digits_of_digits [of n] digits_of_nonempty [of n]
  by (cases "k - length (digits_of n)")
     (auto simp: padStart_def String_of_def is_digit_def list_all_iff)

subsection \<open>The property order of the subfields object\<close>

lemma array_index_code:
  "code_ok k \<Longrightarrow> array_index k = (if is_digit (hd k) then Some (hd k - 48) else None)"
  by (cases k) (auto simp: code_ok_def array_index_def nat_of_digits_def is_digit_def)

lemma array_index_code_inj:
  "code_ok k1 \<Longrightarrow> code_ok k2 \<Longrightarrow> array_index k1 = Some n \<Longrightarrow> array_index k2 = Some n \<Longrightarrow> k1 = k2"
  by (cases k1; cases k2) (auto simp: array_index_code code_ok_def is_digit_def split: if_splits)

lemma before_trans: "before a b \<Longrightarrow> before b c \<Longrightarrow> before a c"
  by (auto simp: before_def split: option.splits)

lemma before_non_index: "array_index k = None \<Longrightarrow> before k' k"
  by (simp add: before_def split: option.splits)

lemma insert_index_at_end:
  "\<forall>k' \<in> fst ` set sf. before k' k \<Longrightarrow> array_index k = Some n \<Longrightarrow> insert_index n k v sf = sf @ [(k, v)]"
  by (induction sf) (auto simp: before_def split: option.splits)

text \<open>Setting a new key that comes after all present keys appends the entry.\<close>

lemma obj_set_new:
  assumes "k \<notin> fst ` set sf" and "\<forall>k' \<in> fst ` set sf. before k' k"
  shows "obj_set sf k v = sf @ [(k, v)]"
  using assms by (cases "array_index k") (simp_all add: obj_set_def insert_index_at_end)

text \<open>Setting the key of the last entry replaces its value.\<close>

lemma obj_set_last:
  assumes "k \<notin> fst ` set pre"
  shows "obj_set (pre @ [(k, v0)]) k v = pre @ [(k, v)]"
proof -
  from assms have "map (\<lambda>(k', v'). if k' = k then (k', v) else (k', v')) pre = pre"
    by (induction pre) auto
  then show ?thesis by (simp add: obj_set_def)
qed

lemma insert_index_keys:
  "set (insert_index n k v sf) = insert (k, v) (set sf)"
  by (induction sf) (auto split: option.splits if_splits)

lemma insert_index_sorted:
  assumes "sorted_wrt before (map fst sf)" and "k \<notin> fst ` set sf"
    and "\<forall>k' \<in> fst ` set sf. code_ok k'" and "code_ok k" and "array_index k = Some n"
  shows "sorted_wrt before (map fst (insert_index n k v sf))"
  using assms
proof (induction sf)
  case Nil
  show ?case by simp
next
  case (Cons e rest)
  obtain k' v' where e: "e = (k', v')" by (cases e)
  show ?case
  proof (cases "\<exists>m. array_index k' = Some m \<and> m < n")
    case True
    then obtain m where m: "array_index k' = Some m" "m < n" by blast
    from Cons have ih: "sorted_wrt before (map fst (insert_index n k v rest))"
      by simp
    from m Cons.prems have "before k' k"
      by (simp add: before_def)
    with Cons.prems e have "\<forall>y \<in> fst ` set (insert_index n k v rest). before k' y"
      by (auto simp: insert_index_keys)
    with ih m e show ?thesis by simp
  next
    case False
    have bk: "before k k'"
    proof (cases "array_index k'")
      case None
      then show ?thesis using Cons.prems by (simp add: before_def)
    next
      case (Some m)
      with False have "\<not> m < n" by simp
      moreover from Cons.prems e Some have "m \<noteq> n"
        using array_index_code_inj [of k' k n] by auto
      ultimately show ?thesis using Cons.prems Some by (simp add: before_def)
    qed
    from Cons.prems e have "\<forall>y \<in> fst ` set rest. before k' y"
      by auto
    with bk have "\<forall>y \<in> fst ` set rest. before k y"
      by (blast intro: before_trans)
    moreover from False e have "insert_index n k v (e # rest) = (k, v) # e # rest"
      by (auto split: option.splits)
    ultimately show ?thesis using bk Cons.prems e by auto
  qed
qed

lemma insert_index_distinct:
  "distinct (map fst sf) \<Longrightarrow> k \<notin> fst ` set sf \<Longrightarrow> distinct (map fst (insert_index n k v sf))"
  by (induction sf) (auto simp: insert_index_keys split: option.splits)

lemma obj_set_sf_ok:
  assumes "sf_ok sf" and "code_ok k" and "value_ok v"
  shows "sf_ok (obj_set sf k v)"
proof (cases "k \<in> fst ` set sf")
  case True
  let ?g = "\<lambda>(k', v'). if k' = k then (k', v) else (k', v')"
  have keys: "map (fst \<circ> ?g) sf = map fst sf"
    by (induction sf) auto
  from assms have vals: "list_all (\<lambda>(k, v). code_ok k \<and> value_ok v) (map ?g sf)"
    by (auto simp: sf_ok_def list_all_iff split: if_splits)
  from assms True vals show ?thesis
    by (simp add: sf_ok_def obj_set_def keys)
next
  case False
  show ?thesis
  proof (cases "array_index k")
    case None
    with assms False show ?thesis
      by (auto simp: sf_ok_def obj_set_def sorted_wrt_append before_non_index)
  next
    case (Some n)
    from assms have codes: "\<forall>k' \<in> fst ` set sf. code_ok k'"
      by (auto simp: sf_ok_def list_all_iff)
    from assms have "list_all (\<lambda>(k, v). code_ok k \<and> value_ok v) (insert_index n k v sf)"
      by (auto simp: sf_ok_def list_all_iff insert_index_keys)
    with assms False Some codes show ?thesis
      by (simp add: sf_ok_def obj_set_def insert_index_sorted insert_index_distinct)
  qed
qed

subsection \<open>Decoding subfields\<close>

lemma ascii_platform_codec: "utf8_codec ascii_platform"
  by (simp add: utf8_codec_def ascii_platform_def)

lemma decode_ascii: "utf8_codec P \<Longrightarrow> is_ascii s \<Longrightarrow> utf8_decode P s = s"
  by (simp add: utf8_codec_def)

lemma encode_ascii: "utf8_codec P \<Longrightarrow> is_ascii s \<Longrightarrow> utf8_encode P s = s"
  by (simp add: utf8_codec_def)

lemma decode_no_delims: "utf8_codec P \<Longrightarrow> no_delims bs \<Longrightarrow> no_delims (utf8_decode P bs)"
  by (simp add: utf8_codec_def)

lemma encode_no_delims: "utf8_codec P \<Longrightarrow> no_delims s \<Longrightarrow> no_delims (utf8_encode P s)"
  by (simp add: utf8_codec_def)

lemma is_ascii_append [simp]: "is_ascii (xs @ ys) \<longleftrightarrow> is_ascii xs \<and> is_ascii ys"
  by (simp add: is_ascii_def)

lemma is_ascii_take: "is_ascii xs \<Longrightarrow> is_ascii (take n xs)"
  by (auto simp: is_ascii_def list_all_iff dest: in_set_takeD)

lemma is_ascii_drop: "is_ascii xs \<Longrightarrow> is_ascii (drop n xs)"
  by (auto simp: is_ascii_def list_all_iff dest: in_set_dropD)

lemma is_bytes_take: "is_bytes xs \<Longrightarrow> is_bytes (take n xs)"
  by (auto simp: is_bytes_def list_all_iff dest: in_set_takeD)

lemma is_bytes_drop: "is_bytes xs \<Longrightarrow> is_bytes (drop n xs)"
  by (auto simp: is_bytes_def list_all_iff dest: in_set_dropD)

lemma is_bytes_slice: "is_bytes xs \<Longrightarrow> is_bytes (slice xs s e)"
  by (simp add: slice_def Let_def is_bytes_take is_bytes_drop)

lemma is_bytes_dropWhile: "is_bytes xs \<Longrightarrow> is_bytes (dropWhile p xs)"
  by (auto simp: is_bytes_def list_all_iff dest: set_dropWhileD)

lemma code_ok_fromCharCode_at: "is_bytes xs \<Longrightarrow> code_ok (fromCharCode_at xs i)"
  by (auto simp: code_ok_def fromCharCode_at_def is_bytes_def list_all_iff)

lemma map_of_sf_ok:
  "sf_ok sf \<Longrightarrow> map_of sf k = Some x \<Longrightarrow> value_ok x"
  by (auto simp: sf_ok_def list_all_iff dest: map_of_SomeD)

lemma add_subfield_ok:
  assumes "sf_ok sf" and "code_ok code" and "no_delims v"
  shows "sf_ok (add_subfield sf code v)"
proof (cases "truthy (map_of sf code)")
  case False
  with assms show ?thesis
    by (simp add: add_subfield_def obj_set_sf_ok)
next
  case True
  then obtain x where x: "map_of sf code = Some x"
    by (cases "map_of sf code") auto
  with assms have ok: "value_ok x"
    by (simp add: map_of_sf_ok)
  show ?thesis
  proof (cases x)
    case (Str s)
    with True x ok assms have "value_ok (Arr [s, v])" by simp
    with assms True x Str show ?thesis
      by (simp add: add_subfield_def obj_set_sf_ok)
  next
    case (Arr vs)
    with ok assms have "value_ok (Arr (vs @ [v]))"
      by (cases vs) auto
    with assms True x Arr show ?thesis
      by (simp add: add_subfield_def obj_set_sf_ok)
  qed
qed

lemma parseSubfields_ok:
  "utf8_codec P \<Longrightarrow> is_bytes d \<Longrightarrow> sf_ok sf \<Longrightarrow> sf_ok (parseSubfields P d sf)"
proof (induction P d sf rule: parseSubfields.induct)
  case (1 P sf)
  then show ?case by simp
next
  case (2 P b rest sf)
  from "2.prems" have rest: "is_bytes rest"
    by (simp add: is_bytes_def)
  show ?case
  proof (cases "b = 31")
    case False
    with 2 rest show ?thesis by simp
  next
    case True
    let ?p = "\<lambda>x. x \<noteq> 31 \<and> x \<noteq> (30::nat)"
    let ?v = "takeWhile ?p (drop 1 rest)"
    have "no_delims ?v"
      by (auto simp: no_delims_def list_all_iff dest: set_takeWhileD)
    with "2.prems" have nd: "no_delims (utf8_decode P ?v)"
      by (simp add: decode_no_delims)
    from rest have "code_ok (fromCharCode_at rest 0)"
      by (rule code_ok_fromCharCode_at)
    with "2.prems" nd have "sf_ok (add_subfield sf (fromCharCode_at rest 0) (utf8_decode P ?v))"
      by (simp add: add_subfield_ok)
    moreover from rest have "is_bytes (dropWhile ?p (drop 1 rest))"
      by (simp add: is_bytes_dropWhile is_bytes_drop)
    ultimately show ?thesis
      using True "2.IH"(1) [OF True refl refl refl] "2.prems"(1)
      by (simp add: Let_def)
  qed
qed

lemma parse_one_subfield:
  assumes "no_delims v" and "rest = [] \<or> hd rest = 31"
  shows "parseSubfields P (31 # c # v @ rest) sf = parseSubfields P rest (add_subfield sf [c] (utf8_decode P v))"
proof -
  let ?p = "\<lambda>x. x \<noteq> 31 \<and> x \<noteq> (30::nat)"
  from assms have t: "takeWhile ?p (v @ rest) = v"
    by (cases rest) (auto simp: no_delims_def list_all_iff takeWhile_append)
  from assms have d: "dropWhile ?p (v @ rest) = rest"
    by (cases rest) (auto simp: no_delims_def list_all_iff dropWhile_append)
  show ?thesis
    by (simp add: Let_def t d fromCharCode_at_def)
qed

text \<open>A text that makes the round trip is read back from its bytes.\<close>

lemma parse_encoded_subfield:
  assumes "utf8_codec P" and "no_delims w" and "round_trips P w" and "rest = [] \<or> hd rest = 31"
  shows "parseSubfields P (31 # c # utf8_encode P w @ rest) sf = parseSubfields P rest (add_subfield sf [c] w)"
proof -
  from assms have "no_delims (utf8_encode P w)"
    by (simp add: encode_no_delims)
  from parse_one_subfield [OF this assms(4), of P c sf] assms(3) show ?thesis
    by (simp add: round_trips_def)
qed

subsection \<open>Decoding encoded subfields\<close>

lemma values_bytes_start:
  assumes "rest = [] \<or> hd rest = 31"
  shows "concat (map (\<lambda>s. [31, c] @ f s) ws) @ rest = []
       \<or> hd (concat (map (\<lambda>s. [31, c] @ f s) ws) @ rest) = 31"
  using assms by (cases ws) auto

lemma subfield_bytes_start: "subfield_bytes P sf = [] \<or> hd (subfield_bytes P sf) = 31"
proof (induction sf)
  case Nil
  show ?case by (simp add: subfield_bytes_def)
next
  case (Cons e es)
  obtain k v where e: "e = (k, v)" by (cases e)
  have "subfield_bytes P (e # es) =
      concat (map (\<lambda>s. [31, charCode0_byte k] @ utf8_encode P s) (values_of v)) @ subfield_bytes P es"
    by (simp add: subfield_bytes_def e)
  with values_bytes_start [OF Cons] show ?case
    by simp
qed

lemma map_of_last: "k \<notin> fst ` set pre \<Longrightarrow> map_of (pre @ [(k, x)]) k = Some x"
  by (induction pre) auto

lemma map_of_absent: "k \<notin> fst ` set pre \<Longrightarrow> map_of pre k = None"
  by (simp add: map_of_eq_None_iff)

text \<open>The further values of a repeated code extend the array that the object holds for it.\<close>

lemma parse_more_values:
  assumes "utf8_codec P" and "[c] \<notin> fst ` set pre" and "rest = [] \<or> hd rest = 31"
  shows "list_all (\<lambda>v. no_delims v \<and> round_trips P v) ws \<Longrightarrow>
     parseSubfields P (concat (map (\<lambda>s. [31, c] @ utf8_encode P s) ws) @ rest) (pre @ [([c], Arr us)])
     = parseSubfields P rest (pre @ [([c], Arr (us @ ws))])"
proof (induction ws arbitrary: us)
  case Nil
  show ?case by simp
next
  case (Cons w ws)
  let ?f = "\<lambda>s. [31, c] @ utf8_encode P s"
  from Cons.prems have w: "no_delims w" "round_trips P w"
    by simp_all
  from values_bytes_start [OF assms(3), of c "utf8_encode P" ws]
  have st: "concat (map ?f ws) @ rest = [] \<or> hd (concat (map ?f ws) @ rest) = 31" .
  from assms have mo: "map_of (pre @ [([c], Arr us)]) [c] = Some (Arr us)"
    by (intro map_of_last)
  have add: "add_subfield (pre @ [([c], Arr us)]) [c] w = pre @ [([c], Arr (us @ [w]))]"
    unfolding add_subfield_def mo using assms by (simp add: obj_set_last)
  have "parseSubfields P (concat (map ?f (w # ws)) @ rest) (pre @ [([c], Arr us)])
      = parseSubfields P (31 # c # utf8_encode P w @ (concat (map ?f ws) @ rest)) (pre @ [([c], Arr us)])"
    by simp
  also have "\<dots> = parseSubfields P (concat (map ?f ws) @ rest) (pre @ [([c], Arr (us @ [w]))])"
    using parse_encoded_subfield [OF assms(1) w st] add by simp
  also from Cons have "\<dots> = parseSubfields P rest (pre @ [([c], Arr ((us @ [w]) @ ws))])"
    by simp
  finally show ?case by simp
qed

text \<open>The bytes of one entry decode to that entry, placed after the entries already there.\<close>

lemma parse_entry:
  assumes P: "utf8_codec P" and k: "code_ok k" "k \<notin> fst ` set pre" "\<forall>k' \<in> fst ` set pre. before k' k"
    and v: "value_ok v" and rt: "list_all (round_trips P) (values_of v)"
    and rest: "rest = [] \<or> hd rest = 31"
  shows "parseSubfields P
           (concat (map (\<lambda>s. [31, charCode0_byte k] @ utf8_encode P s) (values_of v)) @ rest) pre
         = parseSubfields P rest (pre @ [(k, v)])"
proof -
  from k obtain c where c: "k = [c]" "c < 256"
    by (cases k) (auto simp: code_ok_def is_bytes_def)
  then have cb: "charCode0_byte k = c"
    by (simp add: charCode0_byte_def)
  let ?f = "\<lambda>s. [31, c] @ utf8_encode P s"
  show ?thesis
  proof (cases v)
    case (Str s)
    with v rt have s: "no_delims s" "round_trips P s"
      by simp_all
    from k have "add_subfield pre k s = pre @ [(k, Str s)]"
      by (simp add: add_subfield_def map_of_absent obj_set_new)
    with parse_encoded_subfield [OF P s rest, of c pre] Str c cb show ?thesis
      by simp
  next
    case (Arr vs)
    with v obtain v1 v2 ws where vs: "vs = v1 # v2 # ws"
      by (cases vs; cases "tl vs") auto
    with v rt Arr have v1: "no_delims v1" "round_trips P v1" and ne: "v1 \<noteq> []"
      and v2: "no_delims v2" "round_trips P v2"
      and ws: "list_all (\<lambda>v. no_delims v \<and> round_trips P v) ws"
      by (auto simp: list_all_iff)
    from values_bytes_start [OF rest, of c "utf8_encode P" ws]
    have st3: "concat (map ?f ws) @ rest = [] \<or> hd (concat (map ?f ws) @ rest) = 31" .
    have st2: "31 # c # utf8_encode P v2 @ concat (map ?f ws) @ rest = []
        \<or> hd (31 # c # utf8_encode P v2 @ concat (map ?f ws) @ rest) = 31"
      by simp
    from k have a1: "add_subfield pre k v1 = pre @ [(k, Str v1)]"
      by (simp add: add_subfield_def map_of_absent obj_set_new)
    from k have mo: "map_of (pre @ [(k, Str v1)]) k = Some (Str v1)"
      by (intro map_of_last)
    have a2: "add_subfield (pre @ [(k, Str v1)]) k v2 = pre @ [(k, Arr [v1, v2])]"
      unfolding add_subfield_def mo using k ne by (simp add: obj_set_last)
    have "parseSubfields P (concat (map ?f vs) @ rest) pre
        = parseSubfields P (31 # c # utf8_encode P v1 @ (31 # c # utf8_encode P v2 @ concat (map ?f ws) @ rest)) pre"
      by (simp add: vs)
    also have "\<dots> = parseSubfields P (31 # c # utf8_encode P v2 @ (concat (map ?f ws) @ rest)) (pre @ [(k, Str v1)])"
      using parse_encoded_subfield [OF P v1 st2, of c pre] a1 c by simp
    also have "\<dots> = parseSubfields P (concat (map ?f ws) @ rest) (pre @ [(k, Arr [v1, v2])])"
      using parse_encoded_subfield [OF P v2 st3, of c "pre @ [(k, Str v1)]"] a2 c by simp
    also have "\<dots> = parseSubfields P rest (pre @ [(k, Arr ([v1, v2] @ ws))])"
      using parse_more_values [OF P _ rest ws, of c pre "[v1, v2]"] k c by simp
    finally show ?thesis
      by (simp add: Arr vs cb)
  qed
qed

text \<open>Decoding the bytes that the encoder writes for a subfields object returns the object.\<close>

lemma parseSubfields_subfield_bytes:
  "utf8_codec P \<Longrightarrow> sf_ok (pre @ sf) \<Longrightarrow>
   list_all (round_trips P) (concat (map (\<lambda>(code, v). values_of v) sf)) \<Longrightarrow>
   parseSubfields P (subfield_bytes P sf) pre = pre @ sf"
proof (induction sf arbitrary: pre)
  case Nil
  show ?case by (simp add: subfield_bytes_def)
next
  case (Cons e es)
  obtain k v where e: "e = (k, v)" by (cases e)
  from Cons.prems e have k: "code_ok k" "k \<notin> fst ` set pre" "\<forall>k' \<in> fst ` set pre. before k' k"
    and v: "value_ok v"
    by (auto simp: sf_ok_def sorted_wrt_append)
  from Cons.prems e have rt: "list_all (round_trips P) (values_of v)"
    and rts: "list_all (round_trips P) (concat (map (\<lambda>(code, v). values_of v) es))"
    by simp_all
  have b: "subfield_bytes P (e # es) =
      concat (map (\<lambda>s. [31, charCode0_byte k] @ utf8_encode P s) (values_of v)) @ subfield_bytes P es"
    by (simp add: subfield_bytes_def e)
  from Cons.prems e have "sf_ok ((pre @ [(k, v)]) @ es)"
    by simp
  with Cons.IH [OF Cons.prems(1) _ rts, of "pre @ [(k, v)]"]
  have "parseSubfields P (subfield_bytes P es) (pre @ [(k, v)]) = (pre @ [(k, v)]) @ es"
    by blast
  with parse_entry [OF Cons.prems(1) k v rt subfield_bytes_start [of P es]] b e show ?case
    by simp
qed

subsection \<open>Decoded records are well formed\<close>

lemma sf_ok_Nil: "sf_ok []"
  by (simp add: sf_ok_def)

lemma parseField_ok:
  assumes "utf8_codec P" and "is_bytes bytes"
  shows "field_ok (parseField P bytes startOffset baseAddress tg fieldLength fieldStart)"
proof -
  let ?fd = "slice bytes (map_option (\<lambda>s. startOffset + baseAddress + s) fieldStart)
      (case (map_option (\<lambda>s. startOffset + baseAddress + s) fieldStart, fieldLength) of
         (Some a, Some l) \<Rightarrow> Some (a + l - 1) | _ \<Rightarrow> None)"
  from assms have fd: "is_bytes ?fd"
    by (simp add: is_bytes_slice)
  with assms have "sf_ok (parseSubfields P (drop 2 ?fd) [])"
    by (simp add: parseSubfields_ok is_bytes_drop sf_ok_Nil)
  then show ?thesis
    using fd by (simp add: parseField_def Let_def code_ok_fromCharCode_at)
qed

lemma parseDirectory_ok:
  "utf8_codec P \<Longrightarrow> is_bytes bytes \<Longrightarrow>
   list_all field_ok (parseDirectory P bytes startOffset baseAddress directoryOffset directoryEnd)"
proof (induction P bytes startOffset baseAddress directoryOffset directoryEnd rule: parseDirectory.induct)
  case (1 P bytes startOffset baseAddress directoryOffset directoryEnd)
  let ?tg = "utf8_decode P (slice bytes (Some directoryOffset) (Some (directoryOffset + 3)))"
  show ?case
  proof (cases "directoryOffset < directoryEnd \<and> \<not> (?tg = [30] \<or> ?tg = [])")
    case False
    then show ?thesis
      by (subst parseDirectory.simps) (auto simp: Let_def)
  next
    case True
    with "1.IH" [OF _ refl refl refl] "1.prems"
    have "list_all field_ok (parseDirectory P bytes startOffset baseAddress (directoryOffset + 12) directoryEnd)"
      by simp
    with True "1.prems" show ?thesis
      by (subst parseDirectory.simps) (simp add: Let_def parseField_ok)
  qed
qed

lemma slice_nonneg:
  "0 \<le> s \<Longrightarrow> 0 \<le> e \<Longrightarrow> slice xs (Some s) (Some e) = take (nat e - nat s) (drop (nat s) xs)"
  by (auto simp: slice_def rel_index_def Let_def min_def)

lemma parseRecord_ok:
  assumes "utf8_codec P" and "is_bytes bytes" and "parseRecord P bytes off = Some r"
  shows "record_ok r"
  using assms(3) parseDirectory_ok [OF assms(1,2)]
  by (auto simp: parseRecord_def Let_def record_ok_def split: option.splits if_splits)

lemma parse_from_ok:
  "utf8_codec P \<Longrightarrow> is_bytes bytes \<Longrightarrow> list_all record_ok records \<Longrightarrow>
   list_all record_ok (parse_from P bytes offset records)"
proof (induction P bytes offset records rule: parse_from.induct)
  case (1 P bytes offset records)
  show ?case
  proof (cases "offset < length bytes \<and> \<not> (bytes ! offset = 0 \<or> offset + 24 \<ge> length bytes)")
    case False
    with "1.prems" show ?thesis
      by (subst parse_from.simps) auto
  next
    case True
    show ?thesis
    proof (cases "parseRecord P bytes offset")
      case None
      with True "1.prems" show ?thesis
        by (subst parse_from.simps) auto
    next
      case (Some r)
      with "1.prems" have "record_ok r"
        by (intro parseRecord_ok [of P bytes offset r]) auto
      with "1.IH" [of r] True Some "1.prems"
      have "list_all record_ok (parse_from P bytes (endOffset r) (records @ [r]))"
        by simp
      with True Some show ?thesis
        by (subst parse_from.simps) auto
    qed
  qed
qed

lemma parse_ok: "utf8_codec P \<Longrightarrow> is_bytes bytes \<Longrightarrow> list_all record_ok (parse P bytes)"
  by (simp add: parse_def parse_from_ok)

subsection \<open>The rebuilt record in closed form\<close>

lemma fieldData_of_ok:
  "field_ok f \<Longrightarrow> \<exists>fd. fieldData_of P f = Inr fd \<and> field_bytes P f = fd @ [30]"
  by (cases f) (auto simp: field_bytes_def)

lemma rebuild_fields_ok:
  "list_all field_ok fs \<Longrightarrow>
   rebuild_fields P fs cur = Inr (map (field_bytes P) fs, entries_from P fs cur)"
proof (induction fs arbitrary: cur)
  case Nil
  show ?case by simp
next
  case (Cons f fs)
  from Cons.prems obtain fd where fd: "fieldData_of P f = Inr fd" "field_bytes P f = fd @ [30]"
    using fieldData_of_ok [of f P] by auto
  then have "field_size P f = length fd + 1"
    by (simp add: field_size_def)
  with Cons fd show ?case
    by (simp add: Let_def)
qed

lemma directoryEntry_ok:
  assumes "utf8_codec P" and "is_ascii tg" and "length tg = 3" and "n < 10 ^ 4" and "cur < 10 ^ 5"
  shows "directoryEntry P tg n cur = tg @ padStart 4 48 (String_of (int n)) @ padStart 5 48 (String_of (int cur))"
    and "length (directoryEntry P tg n cur) = 12"
proof -
  let ?e = "tg @ padStart 4 48 (String_of (int n)) @ padStart 5 48 (String_of (int cur))"
  from assms have "is_ascii ?e"
    by (simp add: is_ascii_padStart)
  with assms have "utf8_encode P ?e = ?e"
    by (simp add: encode_ascii)
  with assms show "directoryEntry P tg n cur = ?e"
    by (simp add: directoryEntry_def padEnd_def)
  with assms show "length (directoryEntry P tg n cur) = 12"
    by (simp add: length_padStart)
qed

lemma ta_set_at:
  "length a = off \<Longrightarrow> length s \<le> length z \<Longrightarrow> ta_set (a @ z) s off = Inr (a @ s @ drop (length s) z)"
  by (simp add: ta_set_def)

lemma set_entries_ok:
  "list_all (\<lambda>e. length e = 12) es \<Longrightarrow>
   set_entries (d0 @ replicate (12 * length es + 1) 0) es (length d0) = Inr (d0 @ concat es @ [0])"
proof (induction es arbitrary: d0)
  case Nil
  show ?case by simp
next
  case (Cons e es)
  then have e: "length e = 12" by simp
  have "ta_set (d0 @ replicate (12 * length (e # es) + 1) 0) e (length d0)
      = Inr (d0 @ e @ drop (length e) (replicate (12 * length (e # es) + 1) 0))"
    by (rule ta_set_at) (simp_all add: e)
  also have "drop (length e) (replicate (12 * length (e # es) + 1) (0::nat)) = replicate (12 * length es + 1) 0"
    by (simp add: e)
  finally have t: "ta_set (d0 @ replicate (12 * length (e # es) + 1) 0) e (length d0)
      = Inr ((d0 @ e) @ replicate (12 * length es + 1) 0)"
    by simp
  from Cons.IH [of "d0 @ e"] Cons.prems e
  have "set_entries ((d0 @ e) @ replicate (12 * length es + 1) 0) es (length d0 + 12) = Inr ((d0 @ e) @ concat es @ [0])"
    by simp
  with t show ?case
    by simp
qed

lemma length_concat_12:
  "list_all (\<lambda>e. length e = 12) es \<Longrightarrow> length (concat es) = 12 * length es"
  by (induction es) simp_all

lemma substring_padEnd_24: "length l = 24 \<Longrightarrow> substring (padEnd 24 32 l) 0 24 = l"
  by (simp add: substring_def padEnd_def)

lemma rebuild_leader_ok:
  assumes "utf8_codec P" and "is_ascii ldr" and "length ldr = 24" and "len < 10 ^ 5" and "base < 10 ^ 5"
  shows "rebuild_leader P ldr len base =
           padStart 5 48 (String_of (int len)) @ take 7 (drop 5 ldr)
           @ padStart 5 48 (String_of (int base)) @ take 3 (drop 17 ldr) @ js ''4500''"
    and "length (rebuild_leader P ldr len base) = 24"
    and "is_ascii (rebuild_leader P ldr len base)"
proof -
  let ?l = "padStart 5 48 (String_of (int len)) @ take 7 (drop 5 ldr)
           @ padStart 5 48 (String_of (int base)) @ take 3 (drop 17 ldr) @ js ''4500''"
  from assms have len: "length ?l = 24"
    by (simp add: length_padStart js_def)
  from assms have asc: "is_ascii ?l"
    by (simp add: is_ascii_padStart is_ascii_take is_ascii_drop) (simp add: js_def is_ascii_def)
  with assms have enc: "utf8_encode P ?l = ?l"
    by (simp add: encode_ascii)
  have "substring (padEnd 24 32 ?l) 0 24 = ?l"
    by (rule substring_padEnd_24 [OF len])
  with enc have "utf8_encode P (substring (padEnd 24 32 ?l) 0 24) = ?l"
    by simp
  then show r: "rebuild_leader P ldr len base = ?l"
    unfolding rebuild_leader_def substring_def [of ldr] by simp
  from r len show "length (rebuild_leader P ldr len base) = 24" by simp
  from r asc show "is_ascii (rebuild_leader P ldr len base)" by simp
qed

lemma field_fits_tag: "field_fits P f \<Longrightarrow> length (tag f) = 3 \<and> is_ascii (tag f) \<and> field_size P f \<le> 9999"
  by (simp add: field_fits_def)

lemma length_entries_from: "length (entries_from P fs cur) = length fs"
  by (induction fs arbitrary: cur) simp_all

lemma entries_from_12:
  assumes "utf8_codec P"
  shows "list_all (field_fits P) fs \<Longrightarrow>
         cur + sum_list (map (field_size P) fs) \<le> 99999 \<Longrightarrow>
         list_all (\<lambda>e. length e = 12) (entries_from P fs cur)"
proof (induction fs arbitrary: cur)
  case Nil
  show ?case by simp
next
  case (Cons f fs)
  from Cons.prems have "length (directoryEntry P (tag f) (field_size P f) cur) = 12"
    by (intro directoryEntry_ok(2) [OF assms]) (auto simp: field_fits_def)
  moreover from Cons have "list_all (\<lambda>e. length e = 12) (entries_from P fs (cur + field_size P f))"
    by (simp add: add.assoc)
  ultimately show ?case by simp
qed

lemma length_field_data:
  "length (concat (map (field_bytes P) fs)) = sum_list (map (field_size P) fs)"
  by (induction fs) (simp_all add: field_size_def)

lemma replicate_zeros_split:
  "replicate (a + (b + (c + 1))) (0::nat) = replicate a 0 @ replicate b 0 @ replicate c 0 @ [0]"
  by (simp add: replicate_add replicate_append_same)

lemma rebuildRecord_ok:
  assumes P: "utf8_codec P" and r: "record_ok r" and e: "encodable P r"
  shows "rebuildRecord P r = Inr (rebuilt_bytes P r)"
proof -
  let ?fs = "rfields r"
  let ?n = "length ?fs"
  let ?entries = "entries_from P ?fs 0"
  let ?fieldData = "concat (map (field_bytes P) ?fs)"
  let ?L = "record_size P r"
  let ?base = "24 + (?n * 12 + 1)"
  let ?ldr = "rebuild_leader P (leader r) ?L ?base"
  let ?dir = "concat ?entries @ [30]"
  from e have size: "record_size P r \<le> 99999" and fits: "list_all (field_fits P) ?fs"
    by (simp_all add: encodable_def)
  from r have ok: "list_all field_ok ?fs"
    by (simp add: record_ok_def)
  then have rf: "rebuild_fields P ?fs 0 = Inr (map (field_bytes P) ?fs, ?entries)"
    by (rule rebuild_fields_ok)
  from size have "0 + sum_list (map (field_size P) ?fs) \<le> 99999"
    by (simp add: record_size_def)
  with fits have e12: "list_all (\<lambda>e. length e = 12) ?entries"
    by (intro entries_from_12 [OF P])
  then have lce: "length (concat ?entries) = 12 * ?n"
    by (simp add: length_concat_12 length_entries_from)
  from set_entries_ok [OF e12, of "[]"]
  have se: "set_entries (replicate (?n * 12 + 1) 0) ?entries 0 = Inr (concat ?entries @ [0])"
    by (simp add: length_entries_from mult.commute)
  from lce have dir: "(concat ?entries @ [0]) [?n * 12 := 30] = ?dir"
    by (simp add: list_update_append mult.commute)
  have lfd: "length ?fieldData = sum_list (map (field_size P) ?fs)"
    by (rule length_field_data)
  then have L: "?base + length ?fieldData + 1 = ?L"
    by (simp add: record_size_def)
  from size have base: "?base < 10 ^ 5" and L5: "?L < 10 ^ 5"
    by (simp_all add: record_size_def)
  from e have "is_ascii (leader r)" "length (leader r) = 24"
    by (simp_all add: encodable_def)
  with base L5 have ll: "length ?ldr = 24"
    by (intro rebuild_leader_ok(2) [OF P])
  have ldir: "length ?dir = ?n * 12 + 1"
    using lce by simp
  have "?L = 24 + ((?n * 12 + 1) + (length ?fieldData + 1))"
    by (simp add: record_size_def lfd)
  then have z: "replicate ?L (0::nat) = replicate 24 0 @ replicate (?n * 12 + 1) 0 @ replicate (length ?fieldData) 0 @ [0]"
    by (simp only: replicate_zeros_split)
  have s1: "ta_set (replicate ?L 0) ?ldr 0
      = Inr (?ldr @ replicate (?n * 12 + 1) 0 @ replicate (length ?fieldData) 0 @ [0])"
    using ta_set_at [of "[]" 0 ?ldr "replicate ?L 0"] ll by (simp add: z)
  have s2: "ta_set (?ldr @ replicate (?n * 12 + 1) 0 @ replicate (length ?fieldData) 0 @ [0]) ?dir 24
      = Inr ((?ldr @ ?dir) @ replicate (length ?fieldData) 0 @ [0])"
    using ta_set_at [of ?ldr 24 ?dir "replicate (?n * 12 + 1) 0 @ replicate (length ?fieldData) 0 @ [0]"] ll ldir
    by simp
  have s3: "ta_set ((?ldr @ ?dir) @ replicate (length ?fieldData) 0 @ [0]) ?fieldData ?base
      = Inr ((?ldr @ ?dir) @ ?fieldData @ [0])"
    using ta_set_at [of "?ldr @ ?dir" ?base ?fieldData "replicate (length ?fieldData) 0 @ [0]"] ll ldir
    by simp
  have s4: "((?ldr @ ?dir) @ ?fieldData @ [0]) [?L - 1 := 29] = (?ldr @ ?dir) @ ?fieldData @ [29]"
  proof -
    have "?L - 1 = length ((?ldr @ ?dir) @ ?fieldData)"
      using ll ldir L by simp
    then show ?thesis
      by (metis append.assoc list_update_length)
  qed
  have "rebuildRecord P r = Inr ((?ldr @ ?dir) @ ?fieldData @ [29])"
    unfolding rebuildRecord_def rf
    by (simp only: Let_def sum.case prod.case length_entries_from se dir L s1 s2 s3 s4)
  then show ?thesis
    by (simp add: rebuilt_bytes_def baseAddress_of_def mult.commute)
qed

subsection \<open>Decoding a rebuilt record\<close>

lemma slice_window:
  "s = int (length a) \<Longrightarrow> e = s + int (length b) \<Longrightarrow> slice (a @ b @ c) (Some s) (Some e) = b"
  by (simp add: slice_nonneg nat_add_distrib)

lemma parseField_rebuilt:
  assumes P: "utf8_codec P" and f: "field_ok f" and rt: "list_all (round_trips P) (texts_of f)"
    and fd: "fieldData_of P f = Inr fd"
    and pos: "so + ba + start = int (length a)"
  shows "parseField P (a @ fd @ c) so ba (tag f) (Some (int (length fd + 1))) (Some start) = f"
proof -
  have sl: "slice (a @ fd @ c) (Some (so + ba + start)) (Some (so + ba + start + int (length fd + 1) - 1)) = fd"
    by (rule slice_window) (simp_all add: pos)
  show ?thesis
  proof (cases f)
    case (ControlField tg d)
    with f fd rt have "fd = utf8_encode P d" "utf8_decode P (utf8_encode P d) = d"
      by (auto simp: round_trips_def split: if_splits)
    with ControlField f sl show ?thesis
      by (simp add: parseField_def)
  next
    case (DataField tg i1 i2 sf el)
    with f obtain c1 c2 where i: "i1 = [c1]" "c1 < 256" "i2 = [c2]" "c2 < 256"
      by (cases i1; cases i2) (auto simp: code_ok_def is_bytes_def)
    with DataField f fd have fdv: "fd = [c1, c2] @ subfield_bytes P sf"
      by (auto simp: charCode0_byte_def split: if_splits)
    from DataField f have "sf_ok ([] @ sf)" by simp
    moreover from DataField rt have "list_all (round_trips P) (concat (map (\<lambda>(code, v). values_of v) sf))"
      by simp
    ultimately have "parseSubfields P (subfield_bytes P sf) [] = [] @ sf"
      by (rule parseSubfields_subfield_bytes [OF P])
    with DataField f sl i fdv show ?thesis
      by (simp add: parseField_def fromCharCode_at_def)
  qed
qed

lemma parseDirectory_rebuilt:
  assumes P: "utf8_codec P"
  shows "list_all field_ok fs \<Longrightarrow> list_all (field_fits P) fs \<Longrightarrow>
     cur + sum_list (map (field_size P) fs) \<le> 99999 \<Longrightarrow>
     so + ba + int cur = int (length (pre @ concat (entries_from P fs cur) @ mid)) \<Longrightarrow>
     parseDirectory P (pre @ concat (entries_from P fs cur) @ mid @ concat (map (field_bytes P) fs) @ post)
       so ba (int (length pre)) (int (length pre) + 12 * int (length fs)) = fs"
proof (induction fs arbitrary: pre cur mid)
  case Nil
  show ?case by (subst parseDirectory.simps) simp
next
  case (Cons f fs)
  let ?tg = "tag f"
  let ?l4 = "padStart 4 48 (String_of (int (field_size P f)))"
  let ?s5 = "padStart 5 48 (String_of (int cur))"
  let ?es = "concat (entries_from P fs (cur + field_size P f))"
  let ?rest = "concat (map (field_bytes P) fs)"
  let ?bytes = "pre @ concat (entries_from P (f # fs) cur) @ mid @ concat (map (field_bytes P) (f # fs)) @ post"
  from Cons.prems have f: "field_ok f" "is_ascii ?tg" "length ?tg = 3" "field_size P f < 10 ^ 4" "cur < 10 ^ 5"
    and rt: "list_all (round_trips P) (texts_of f)"
    by (auto simp: field_fits_def)
  from f obtain fd where fd: "fieldData_of P f = Inr fd" "field_bytes P f = fd @ [30]"
    using fieldData_of_ok [of f P] by auto
  then have size: "field_size P f = length fd + 1"
    by (simp add: field_size_def)
  from directoryEntry_ok [OF P f(2-5)]
  have E: "directoryEntry P ?tg (field_size P f) cur = ?tg @ ?l4 @ ?s5"
    and E12: "length (directoryEntry P ?tg (field_size P f) cur) = 12"
    by simp_all
  from f have l4: "length ?l4 = 4" and s5: "length ?s5 = 5"
    by (simp_all add: length_padStart)
  have b1: "?bytes = pre @ ?tg @ (?l4 @ ?s5 @ ?es @ mid @ concat (map (field_bytes P) (f # fs)) @ post)"
    by (simp add: E)
  have b2: "?bytes = (pre @ ?tg) @ ?l4 @ (?s5 @ ?es @ mid @ concat (map (field_bytes P) (f # fs)) @ post)"
    by (simp add: E)
  have b3: "?bytes = (pre @ ?tg @ ?l4) @ ?s5 @ (?es @ mid @ concat (map (field_bytes P) (f # fs)) @ post)"
    by (simp add: E)
  have b4: "?bytes = (pre @ (?tg @ ?l4 @ ?s5) @ ?es @ mid) @ fd @ ([30] @ ?rest @ post)"
    by (simp add: E fd)
  have b5: "?bytes = (pre @ ?tg @ ?l4 @ ?s5) @ ?es @ (mid @ field_bytes P f) @ ?rest @ post"
    by (simp add: E)
  have t: "slice ?bytes (Some (int (length pre))) (Some (int (length pre) + 3)) = ?tg"
    unfolding b1 by (rule slice_window) (simp_all add: f)
  have l: "slice ?bytes (Some (int (length pre) + 3)) (Some (int (length pre) + 7)) = ?l4"
    unfolding b2 by (rule slice_window) (simp_all add: f l4)
  have s: "slice ?bytes (Some (int (length pre) + 7)) (Some (int (length pre) + 12)) = ?s5"
    unfolding b3 by (rule slice_window) (simp_all add: f l4 s5)
  from P f have dt: "utf8_decode P ?tg = ?tg"
    by (simp add: decode_ascii)
  from P have dl: "utf8_decode P ?l4 = ?l4" and ds: "utf8_decode P ?s5 = ?s5"
    by (simp_all add: decode_ascii is_ascii_padStart)
  from f have tne: "\<not> (?tg = [30] \<or> ?tg = [])"
    by auto
  from Cons.prems(4) have pos: "so + ba + int cur = int (length (pre @ (?tg @ ?l4 @ ?s5) @ ?es @ mid))"
    by (simp add: E)
  have "parseField P ((pre @ (?tg @ ?l4 @ ?s5) @ ?es @ mid) @ fd @ ([30] @ ?rest @ post))
      so ba ?tg (Some (int (length fd + 1))) (Some (int cur)) = f"
    by (rule parseField_rebuilt [OF P f(1) rt fd(1) pos])
  then have hd_field: "parseField P ?bytes so ba ?tg (Some (int (field_size P f))) (Some (int cur)) = f"
    by (simp only: b4 [symmetric] size [symmetric])
  from pos size fd have pos': "so + ba + int (cur + field_size P f)
      = int (length ((pre @ ?tg @ ?l4 @ ?s5) @ ?es @ (mid @ field_bytes P f)))"
    by simp
  from Cons.prems have "parseDirectory P ((pre @ ?tg @ ?l4 @ ?s5) @ ?es @ (mid @ field_bytes P f) @ ?rest @ post)
       so ba (int (length (pre @ ?tg @ ?l4 @ ?s5))) (int (length (pre @ ?tg @ ?l4 @ ?s5)) + 12 * int (length fs)) = fs"
    by (intro Cons.IH [OF _ _ _ pos']) (simp_all add: add.assoc)
  then have tl_fields: "parseDirectory P ?bytes so ba (int (length pre) + 12)
      (int (length pre) + 12 * int (length (f # fs))) = fs"
    unfolding b5 [symmetric] using f l4 s5 by (simp add: algebra_simps)
  show ?case
    by (subst parseDirectory.simps)
       (simp only: t l s dt dl ds parseInt10_padStart Let_def tne hd_field tl_fields, simp)
qed

lemma encodable_fields: "encodable P r \<Longrightarrow> list_all (field_fits P) (rfields r)"
  by (simp add: encodable_def)

lemma encodable_entries:
  assumes "utf8_codec P" and "record_ok r" and "encodable P r"
  shows "length (concat (entries_from P (rfields r) 0)) = 12 * length (rfields r)"
proof -
  from assms have "0 + sum_list (map (field_size P) (rfields r)) \<le> 99999"
    by (simp add: encodable_def record_size_def)
  with assms have "list_all (\<lambda>e. length e = 12) (entries_from P (rfields r) 0)"
    by (intro entries_from_12) (simp_all add: encodable_fields)
  then show ?thesis
    by (simp add: length_concat_12 length_entries_from)
qed

text \<open>The leader of a rebuilt record and what is read from it.\<close>

lemma rebuilt_leader:
  assumes P: "utf8_codec P" and r: "record_ok r" and e: "encodable P r"
  defines "ldr \<equiv> rebuild_leader P (leader r) (record_size P r) (baseAddress_of (length (rfields r)))"
  shows "length ldr = 24" and "is_ascii ldr"
    and "parseInt10 (substring ldr 0 5) = Some (int (record_size P r))"
    and "parseInt10 (substring ldr 12 17) = Some (int (baseAddress_of (length (rfields r))))"
    and "ldr ! 0 \<noteq> 0"
proof -
  let ?L = "record_size P r"
  let ?B = "baseAddress_of (length (rfields r))"
  let ?p = "padStart 5 48 (String_of (int ?L))"
  let ?q = "padStart 5 48 (String_of (int ?B))"
  from e have old: "is_ascii (leader r)" "length (leader r) = 24"
    by (simp_all add: encodable_def)
  from e have L: "?L < 10 ^ 5" and B: "?B < 10 ^ 5"
    by (simp_all add: encodable_def record_size_def baseAddress_of_def)
  from rebuild_leader_ok [OF P old L B]
  have eq: "ldr = ?p @ take 7 (drop 5 (leader r)) @ ?q @ take 3 (drop 17 (leader r)) @ js ''4500''"
    and len: "length ldr = 24" and asc: "is_ascii ldr"
    by (simp_all add: ldr_def)
  from L have p: "length ?p = 5" by (simp add: length_padStart)
  from B have q: "length ?q = 5" by (simp add: length_padStart)
  from eq p have s1: "substring ldr 0 5 = ?p"
    by (simp add: substring_def)
  from eq p q old have s2: "substring ldr 12 17 = ?q"
    by (simp add: substring_def)
  show "length ldr = 24" by (rule len)
  show "is_ascii ldr" by (rule asc)
  show "parseInt10 (substring ldr 0 5) = Some (int ?L)"
    by (simp only: s1 parseInt10_padStart)
  show "parseInt10 (substring ldr 12 17) = Some (int ?B)"
    by (simp only: s2 parseInt10_padStart)
  from p obtain c cs where pc: "?p = c # cs"
    by (cases ?p) auto
  with padStart_digit_hd [OF pc] eq show "ldr ! 0 \<noteq> 0"
    by simp
qed

lemma length_rebuilt_bytes:
  assumes "utf8_codec P" and "record_ok r" and "encodable P r"
  shows "length (rebuilt_bytes P r) = record_size P r"
  using rebuilt_leader(1) [OF assms] encodable_entries [OF assms]
  by (simp add: rebuilt_bytes_def record_size_def length_field_data)

lemma parseRecord_rebuilt:
  assumes P: "utf8_codec P" and r: "record_ok r" and e: "encodable P r"
  shows "parseRecord P (pre @ rebuilt_bytes P r @ post) (length pre) =
     Some \<lparr> endOffset = length pre + record_size P r,
            leader = rebuild_leader P (leader r) (record_size P r) (baseAddress_of (length (rfields r))),
            rfields = rfields r \<rparr>"
proof -
  let ?fs = "rfields r"
  let ?n = "length ?fs"
  let ?L = "record_size P r"
  let ?B = "baseAddress_of ?n"
  let ?ldr = "rebuild_leader P (leader r) ?L ?B"
  let ?es = "concat (entries_from P ?fs 0)"
  let ?fd = "concat (map (field_bytes P) ?fs)"
  let ?bytes = "pre @ rebuilt_bytes P r @ post"
  note ld = rebuilt_leader [OF P r e]
  have b1: "?bytes = pre @ ?ldr @ (?es @ [30] @ ?fd @ [29] @ post)"
    by (simp add: rebuilt_bytes_def)
  have b2: "?bytes = (pre @ ?ldr) @ ?es @ [30] @ ?fd @ ([29] @ post)"
    by (simp add: rebuilt_bytes_def)
  have sl: "slice ?bytes (Some (int (length pre))) (Some (int (length pre) + 24)) = ?ldr"
    unfolding b1 by (rule slice_window) (simp_all add: ld(1))
  from P ld(2) have dec: "utf8_decode P ?ldr = ?ldr"
    by (simp add: decode_ascii)
  have Lpos: "\<not> int ?L \<le> 0"
    by (simp add: record_size_def)
  from r have ok: "list_all field_ok ?fs"
    by (simp add: record_ok_def)
  from e have bound: "0 + sum_list (map (field_size P) ?fs) \<le> 99999"
    by (simp add: encodable_def record_size_def)
  have pos: "int (length pre) + int ?B + int 0 = int (length ((pre @ ?ldr) @ ?es @ [30]))"
    using ld(1) encodable_entries [OF P r e] by (simp add: baseAddress_of_def)
  from parseDirectory_rebuilt [OF P ok encodable_fields [OF e] bound pos, of "[29] @ post"]
  have "parseDirectory P ((pre @ ?ldr) @ ?es @ [30] @ ?fd @ ([29] @ post))
      (int (length pre)) (int ?B) (int (length (pre @ ?ldr))) (int (length (pre @ ?ldr)) + 12 * int ?n) = ?fs" .
  then have dir: "parseDirectory P ?bytes (int (length pre)) (int ?B) (int (length pre) + 24)
      (int (length pre) + int ?B - 1) = ?fs"
    unfolding b2 [symmetric] using ld(1) by (simp add: algebra_simps baseAddress_of_def)
  show ?thesis
    unfolding parseRecord_def
    by (simp only: sl dec ld(3,4) Let_def option.case Lpos if_False dir nat_int)
qed

subsection \<open>Decoding the exported buffer\<close>

lemma parse_from_rebuilt:
  assumes P: "utf8_codec P"
  shows "list_all (\<lambda>r. record_ok r \<and> encodable P r) rs \<Longrightarrow>
     map rfields (parse_from P (pre @ concat (map (rebuilt_bytes P) rs)) (length pre) acc)
     = map rfields acc @ map rfields rs"
proof (induction rs arbitrary: pre acc)
  case Nil
  show ?case by (subst parse_from.simps) simp
next
  case (Cons r rs)
  then have r: "record_ok r" and e: "encodable P r"
    by simp_all
  define R where "R = rebuilt_bytes P r"
  define rest where "rest = concat (map (rebuilt_bytes P) rs)"
  define bytes where "bytes = pre @ R @ rest"
  define rec where "rec = \<lparr> endOffset = length pre + record_size P r,
            leader = rebuild_leader P (leader r) (record_size P r) (baseAddress_of (length (rfields r))),
            rfields = rfields r \<rparr>"
  have len: "length R = record_size P r"
    unfolding R_def by (rule length_rebuilt_bytes [OF P r e])
  have big: "26 \<le> record_size P r"
    by (simp add: record_size_def)
  have pr: "parseRecord P bytes (length pre) = Some rec"
    unfolding bytes_def R_def rec_def by (rule parseRecord_rebuilt [OF P r e])
  have "R ! 0 = rebuild_leader P (leader r) (record_size P r) (baseAddress_of (length (rfields r))) ! 0"
    using rebuilt_leader(1) [OF P r e] by (simp add: R_def rebuilt_bytes_def nth_append)
  with rebuilt_leader(5) [OF P r e] have "R ! 0 \<noteq> 0"
    by simp
  with len big have first: "bytes ! length pre \<noteq> 0"
    by (simp add: bytes_def nth_append)
  from len big have c1: "length pre < length bytes" and c2: "\<not> length bytes \<le> length pre + 24"
    by (simp_all add: bytes_def)
  have eo: "endOffset rec = length (pre @ R)"
    by (simp add: rec_def len)
  have "parse_from P bytes (length pre) acc = parse_from P bytes (endOffset rec) (acc @ [rec])"
    by (subst parse_from.simps) (simp only: c1 c2 first pr if_True if_False simp_thms option.case)
  also have "\<dots> = parse_from P ((pre @ R) @ rest) (length (pre @ R)) (acc @ [rec])"
    by (simp only: eo bytes_def append_assoc)
  finally have step: "parse_from P bytes (length pre) acc
      = parse_from P ((pre @ R) @ rest) (length (pre @ R)) (acc @ [rec])" .
  from Cons.prems have "list_all (\<lambda>r. record_ok r \<and> encodable P r) rs"
    by simp
  from Cons.IH [OF this, of "pre @ R" "acc @ [rec]"]
  have "map rfields (parse_from P ((pre @ R) @ rest) (length (pre @ R)) (acc @ [rec]))
      = map rfields (acc @ [rec]) @ map rfields rs"
    by (simp only: rest_def)
  with step have "map rfields (parse_from P bytes (length pre) acc) = map rfields (acc @ [rec]) @ map rfields rs"
    by (simp only:)
  moreover have "rfields rec = rfields r"
    by (simp add: rec_def)
  moreover have "pre @ concat (map (rebuilt_bytes P) (r # rs)) = bytes"
    by (simp add: bytes_def R_def rest_def)
  ultimately show ?case
    by simp
qed

lemma exportBinary_rebuilt:
  assumes P: "utf8_codec P"
  shows "list_all (\<lambda>r. record_ok r \<and> encodable P r) rs \<Longrightarrow>
     exportBinary P rs = Inr (concat (map (rebuilt_bytes P) rs))"
proof (induction rs)
  case Nil
  show ?case by simp
next
  case (Cons r rs)
  then have r: "record_ok r" and e: "encodable P r"
    by simp_all
  from rebuildRecord_ok [OF P r e]
  have "rebuildRecord P r = Inr (rebuilt_bytes P r)" .
  moreover from Cons have "exportBinary P rs = Inr (concat (map (rebuilt_bytes P) rs))"
    by simp
  ultimately show ?case
    by simp
qed

subsection \<open>Consistency of a rebuilt record\<close>

lemma entry_fieldLength_rebuilt:
  assumes P: "utf8_codec P"
  shows "list_all (field_fits P) fs \<Longrightarrow>
     cur + sum_list (map (field_size P) fs) \<le> 99999 \<Longrightarrow> i < length fs \<Longrightarrow>
     parseInt10 (utf8_decode P (slice (pre @ concat (entries_from P fs cur) @ post)
        (Some (int (length pre) + 12 * int i + 3)) (Some (int (length pre) + 12 * int i + 7))))
     = Some (int (field_size P (fs ! i)))"
proof (induction fs arbitrary: pre cur i)
  case Nil
  then show ?case by simp
next
  case (Cons f fs)
  let ?tg = "tag f"
  let ?l4 = "padStart 4 48 (String_of (int (field_size P f)))"
  let ?s5 = "padStart 5 48 (String_of (int cur))"
  let ?es = "concat (entries_from P fs (cur + field_size P f))"
  define bytes where "bytes = pre @ concat (entries_from P (f # fs) cur) @ post"
  from Cons.prems have f: "is_ascii ?tg" "length ?tg = 3" "field_size P f < 10 ^ 4" "cur < 10 ^ 5"
    by (auto simp: field_fits_def)
  from directoryEntry_ok [OF P f]
  have E: "directoryEntry P ?tg (field_size P f) cur = ?tg @ ?l4 @ ?s5"
    by simp
  from f have l4: "length ?l4 = 4" and s5: "length ?s5 = 5"
    by (simp_all add: length_padStart)
  show ?case
  proof (cases i)
    case 0
    have b: "bytes = (pre @ ?tg) @ ?l4 @ (?s5 @ ?es @ post)"
      by (simp add: bytes_def E)
    have "slice bytes (Some (int (length pre) + 12 * int 0 + 3)) (Some (int (length pre) + 12 * int 0 + 7)) = ?l4"
      unfolding b by (rule slice_window) (simp_all add: f l4)
    moreover from P have "utf8_decode P ?l4 = ?l4"
      by (simp add: decode_ascii is_ascii_padStart)
    ultimately show ?thesis
      using 0 by (simp only: bytes_def [symmetric] parseInt10_padStart nth_Cons_0)
  next
    case (Suc j)
    have b: "bytes = (pre @ ?tg @ ?l4 @ ?s5) @ ?es @ post"
      by (simp add: bytes_def E)
    from Cons.prems Suc have pre: "list_all (field_fits P) fs"
      "(cur + field_size P f) + sum_list (map (field_size P) fs) \<le> 99999" "j < length fs"
      by (simp_all add: add.assoc)
    from Cons.IH [OF pre, where pre = "pre @ ?tg @ ?l4 @ ?s5"]
    have "parseInt10 (utf8_decode P (slice bytes
        (Some (int (length (pre @ ?tg @ ?l4 @ ?s5)) + 12 * int j + 3))
        (Some (int (length (pre @ ?tg @ ?l4 @ ?s5)) + 12 * int j + 7))))
      = Some (int (field_size P (fs ! j)))"
      by (simp only: b)
    moreover have "int (length (pre @ ?tg @ ?l4 @ ?s5)) + 12 * int j = int (length pre) + 12 * int (Suc j)"
      using f l4 s5 by simp
    ultimately show ?thesis
      using Suc by (simp only: bytes_def [symmetric] nth_Cons_Suc)
  qed
qed

lemma consistent_rebuilt:
  assumes P: "utf8_codec P" and r: "record_ok r" and e: "encodable P r"
  shows "consistent P r (rebuilt_bytes P r)"
proof -
  let ?fs = "rfields r"
  let ?n = "length ?fs"
  let ?ldr = "rebuild_leader P (leader r) (record_size P r) (baseAddress_of ?n)"
  let ?es = "concat (entries_from P ?fs 0)"
  let ?fd = "concat (map (field_bytes P) ?fs)"
  define out where "out = rebuilt_bytes P r"
  note ld = rebuilt_leader [OF P r e]
  have b1: "out = [] @ ?ldr @ (?es @ [30] @ ?fd @ [29])"
    by (simp add: out_def rebuilt_bytes_def)
  have b2: "out = ?ldr @ ?es @ ([30] @ ?fd @ [29])"
    by (simp add: out_def rebuilt_bytes_def)
  have sl: "slice out (Some 0) (Some 24) = ?ldr"
    unfolding b1 by (rule slice_window) (simp_all add: ld(1))
  from P ld(2) have dec: "utf8_decode P ?ldr = ?ldr"
    by (simp add: decode_ascii)
  have base: "leader_baseAddress P out = Some (int (24 + (12 * ?n + 1)))"
    unfolding leader_baseAddress_def sl dec ld(4) by (simp add: baseAddress_of_def)
  have len: "leader_recordLength P out = Some (int (record_size P r))"
    unfolding leader_recordLength_def sl dec ld(3) by simp
  from r have ok: "list_all field_ok ?fs"
    by (simp add: record_ok_def)
  from e have bound: "0 + sum_list (map (field_size P) ?fs) \<le> 99999"
    by (simp add: encodable_def record_size_def)
  have entries: "entry_fieldLength P out i = Some (int (field_size P (?fs ! i)))" if "i < ?n" for i
    using entry_fieldLength_rebuilt [OF P encodable_fields [OF e] bound that, of ?ldr "[30] @ ?fd @ [29]"] ld(1)
    unfolding entry_fieldLength_def b2 by simp
  have size: "length out = record_size P r"
    unfolding out_def by (rule length_rebuilt_bytes [OF P r e])
  from base len entries size show ?thesis
    unfolding out_def [symmetric] by (simp add: consistent_def Let_def record_size_def)
qed

subsection \<open>Evaluating the encoder\<close>

lemma replicate_numeral_eval: "replicate (numeral k) x = x # replicate (pred_numeral k) x"
  by (simp add: numeral_eq_Suc)

lemmas encode_simps = directoryEntry_def rebuild_leader_def padStart_def padEnd_def String_of_def
  digits_of.simps substring_def charCode0_byte_def subfield_bytes_def starts_with_00_def Let_def
  ta_set_def replicate_numeral_eval ascii_platform_def js_def

text \<open>The sample record with a control field and a data field with a repeated subfield code.\<close>

lemma example_name_record:
  "parse ascii_platform example_name_record_bytes =
     [\<lparr> endOffset = 78, leader = js ''00078nam a2200049   4500'',
        rfields = [ControlField (js ''001'') (js ''abcd''),
                   DataField (js ''100'') (js ''1'') (js '' '')
                     [(js ''a'', Arr [js ''Smith'', js ''John'']), (js ''d'', Str (js ''1900-''))] None] \<rparr>]"
  by (simp add: example_name_record_bytes_def decode_simps fromCharCode_at_def obj_simps)

section \<open>Properties of the name normalisation\<close>

lemma js_woolf_stripped:
  "filter (\<lambda>c. \<not> is_punct c) (js ''Woolf, Virginia, 1882-1941'') = js ''Woolf Virginia 18821941''"
  by (simp add: js_def is_punct_def)

lemma is_ascii_js_woolf: "is_ascii (js ''Woolf Virginia 18821941'')"
  by (simp add: js_def is_ascii_def)

text \<open>
  C2, as stated: \<open>normalizeString\<close> applied to \<open>Woolf, Virginia, 1882-1941\<close> returns
  \<open>afiilnoorvw18821941\<close>. The code does not return that string: the sort step orders
  all surviving characters, digits included, and drops none of the letters.
\<close>

theorem normalizeString_woolf_counterexample:
  "normalizeString ascii_platform (js ''Woolf, Virginia, 1882-1941'') \<noteq> js ''afiilnoorvw18821941''"
  by (simp add: normalizeString_def ascii_platform_def js_def is_punct_def is_whitespace_def
      ascii_lower_def rotate_at_letter_def is_lower_letter_def)

text \<open>
  C2, amended: on every runtime that treats 7-bit text as the standards prescribe,
  \<open>normalizeString\<close> applied to \<open>Woolf, Virginia, 1882-1941\<close> returns
  \<open>afgiiilnoorvw11124889\<close>: the thirteen letters in ascending order followed by the
  eight digits in ascending order.
\<close>

theorem normalizeString_woolf:
  assumes "ascii_exact P"
  shows "normalizeString P (js ''Woolf, Virginia, 1882-1941'') = js ''afgiiilnoorvw11124889''"
proof -
  let ?s = "js ''Woolf Virginia 18821941''"
  from assms is_ascii_js_woolf have n: "normalizeNFKD P ?s = ?s"
    by (simp add: ascii_exact_def)
  have f: "filter (\<lambda>c. c \<le> 127) ?s = ?s"
    by (simp add: js_def)
  from assms is_ascii_js_woolf have l: "toLowerCase P ?s = map ascii_lower ?s"
    by (simp add: ascii_exact_def)
  have r: "rotate_at_letter (sort (filter (\<lambda>c. \<not> is_whitespace c) (map ascii_lower ?s)))
             = js ''afgiiilnoorvw11124889''"
    by (simp add: js_def is_whitespace_def ascii_lower_def rotate_at_letter_def is_lower_letter_def)
  show ?thesis
    by (simp add: normalizeString_def js_woolf_stripped n f l r)
qed

theorem normalizeString_woolf_witness:
  "normalizeString ascii_platform (js ''Woolf, Virginia, 1882-1941'') = js ''afgiiilnoorvw11124889''"
  using normalizeString_woolf [OF ascii_exact_ascii_platform] .

text \<open>
  C9, as stated: for every string and every permutation of its characters,
  \<open>normalizeString\<close> returns the same key. It does not when the string holds
  unpaired surrogates that the permutation brings together: the two code units
  \<open>0xDC00 0xD835\<close> are two unpaired surrogates, which the 7-bit filter drops, so the
  key is empty; in the other order they are the one character \<open>U+1D400\<close>, which
  NFKD turns into \<open>A\<close>, so the key is \<open>a\<close>.
\<close>

theorem unpaired_surrogates_counterexample:
  "mset [56320, 55349] = mset [55349, 56320 :: nat]
   \<and> normalizeString bold_a_platform [56320, 55349] = []
   \<and> normalizeString bold_a_platform [55349, 56320] = js ''a''"
  by (simp add: normalizeString_def bold_a_platform_def ascii_platform_def is_punct_def
      is_whitespace_def ascii_lower_def rotate_at_letter_def is_lower_letter_def js_def)

text \<open>
  C9, amended: for every well-formed string, that is the UTF-16 form of a sequence \<open>s\<close>
  of characters, and every permutation \<open>t\<close> of these characters (white space
  included), \<open>normalizeString\<close> returns the same key for both. The two hypotheses
  describe the runtime. Lowercasing of 7-bit text is the letter-by-letter map. NFKD
  replaces every character by its compatibility decomposition and then reorders
  combining marks only, none of which is 7-bit: so the 7-bit characters of the
  normalised form of a well-formed string are those of the decompositions \<open>d c\<close> of
  its characters \<open>c\<close>, in the order of the characters.
\<close>

theorem normalizeString_character_permutation:
  assumes lower: "\<forall>s. is_ascii s \<longrightarrow> toLowerCase P s = map ascii_lower s"
    and nfkd: "\<forall>cps. list_all is_scalar cps \<longrightarrow>
        filter (\<lambda>c. c \<le> 127) (normalizeNFKD P (utf16 cps)) = concat (map d cps)"
    and wf: "list_all is_scalar s"
    and perm: "mset s = mset t"
  shows "normalizeString P (utf16 s) = normalizeString P (utf16 t)"
proof -
  let ?np = "\<lambda>u. filter (\<lambda>c. \<not> is_punct c) u"
  let ?a = "\<lambda>u. filter (\<lambda>c. c \<le> 127) (normalizeNFKD P (?np (utf16 u)))"
  from perm have "set s = set t"
    by (rule mset_eq_setD)
  with wf have wft: "list_all is_scalar t"
    by (simp add: list_all_iff)
  from wf nfkd have as: "?a s = concat (map d (?np s))"
    by (simp add: filter_punct_utf16 list_all_iff)
  from wft nfkd have at: "?a t = concat (map d (?np t))"
    by (simp add: filter_punct_utf16 list_all_iff)
  from perm have "mset (?np s) = mset (?np t)"
    by simp
  then have "mset (concat (map d (?np s))) = mset (concat (map d (?np t)))"
    by (rule mset_concat_map_cong)
  with as at have a: "mset (?a s) = mset (?a t)"
    by simp
  have asc: "is_ascii (?a u)" for u
    by (simp add: is_ascii_def list_all_iff)
  with lower have low: "toLowerCase P (?a u) = map ascii_lower (?a u)" for u
    by blast
  from a have "mset (map ascii_lower (?a s)) = mset (map ascii_lower (?a t))"
    by simp
  then have "mset (filter (\<lambda>c. \<not> is_whitespace c) (map ascii_lower (?a s)))
           = mset (filter (\<lambda>c. \<not> is_whitespace c) (map ascii_lower (?a t)))"
    by simp
  then have "sort (filter (\<lambda>c. \<not> is_whitespace c) (map ascii_lower (?a s)))
           = sort (filter (\<lambda>c. \<not> is_whitespace c) (map ascii_lower (?a t)))"
    by (rule sort_mset_cong)
  then show ?thesis
    by (simp add: normalizeString_def low)
qed

theorem normalizeString_character_permutation_witness:
  "utf16 [87, 111, 44, 32, 128512, 49] = [87, 111, 44, 32, 55357, 56832, 49]
   \<and> utf16 [49, 128512, 32, 111, 44, 87] = [49, 55357, 56832, 32, 111, 44, 87]
   \<and> normalizeString ascii_platform [87, 111, 44, 32, 55357, 56832, 49]
       = normalizeString ascii_platform [49, 55357, 56832, 32, 111, 44, 87]"
proof -
  have h1: "\<forall>s. is_ascii s \<longrightarrow> toLowerCase ascii_platform s = map ascii_lower s"
    by (simp add: ascii_platform_def)
  have h2: "\<forall>cps. list_all is_scalar cps \<longrightarrow>
        filter (\<lambda>c. c \<le> 127) (normalizeNFKD ascii_platform (utf16 cps))
        = concat (map (\<lambda>c. if c \<le> 127 then [c] else []) cps)"
    by (simp add: ascii_platform_def ascii_units)
  have h3: "list_all is_scalar [87, 111, 44, 32, 128512, 49]"
    by (simp add: is_scalar_def)
  have h4: "mset [87, 111, 44, 32, 128512, 49] = mset [49, 128512, 32, 111, 44, 87 :: nat]"
    by simp
  have u: "utf16 [87, 111, 44, 32, 128512, 49] = [87, 111, 44, 32, 55357, 56832, 49]"
    "utf16 [49, 128512, 32, 111, 44, 87] = [49, 55357, 56832, 32, 111, 44, 87]"
    by (simp_all add: utf16_def utf16_units_def)
  from normalizeString_character_permutation [OF h1 h2 h3 h4] u show ?thesis
    by simp
qed

section \<open>Properties of the identifier conversion and the name extraction\<close>

text \<open>
  C6: when the decimal representation of an identifier starts with one of the digits 1 to
  6, \<open>createLCCNUri\<close> returns \<open>http://id.loc.gov/authorities/names/\<close>, then the
  prefix \<open>nb\<close>, \<open>nn\<close>, \<open>no\<close>, \<open>nr\<close>, \<open>ns\<close> or \<open>n\<close> for that digit,
  then the remaining digits unchanged; for any other first character the conversion
  fails and there is no URI.
\<close>

theorem createLCCNUri_by_first_digit:
  assumes "String_of n = d # rest"
  shows "createLCCNUri n =
           (if d = of_char CHR ''1'' then Some (js ''http://id.loc.gov/authorities/names/nb'' @ rest)
            else if d = of_char CHR ''2'' then Some (js ''http://id.loc.gov/authorities/names/nn'' @ rest)
            else if d = of_char CHR ''3'' then Some (js ''http://id.loc.gov/authorities/names/no'' @ rest)
            else if d = of_char CHR ''4'' then Some (js ''http://id.loc.gov/authorities/names/nr'' @ rest)
            else if d = of_char CHR ''5'' then Some (js ''http://id.loc.gov/authorities/names/ns'' @ rest)
            else if d = of_char CHR ''6'' then Some (js ''http://id.loc.gov/authorities/names/n'' @ rest)
            else None)"
  using assms by (simp add: createLCCNUri_def convertLCCN_def prefixMap_def js_def)

lemma String_of_179041849: "String_of 179041849 = of_char CHR ''1'' # js ''79041849''"
  by (simp add: String_of_def digits_of.simps js_def)

lemma String_of_279041849: "String_of 279041849 = of_char CHR ''2'' # js ''79041849''"
  by (simp add: String_of_def digits_of.simps js_def)

lemma String_of_779041849: "String_of 779041849 = of_char CHR ''7'' # js ''79041849''"
  by (simp add: String_of_def digits_of.simps js_def)

lemma String_of_0: "String_of 0 = of_char CHR ''0'' # []"
  by (simp add: String_of_def digits_of.simps)

theorem createLCCNUri_by_first_digit_witness:
  "createLCCNUri 179041849 = Some (js ''http://id.loc.gov/authorities/names/nb79041849'')
   \<and> createLCCNUri 279041849 = Some (js ''http://id.loc.gov/authorities/names/nn79041849'')
   \<and> createLCCNUri 779041849 = None
   \<and> createLCCNUri 0 = None"
  using createLCCNUri_by_first_digit [OF String_of_179041849]
    createLCCNUri_by_first_digit [OF String_of_279041849]
    createLCCNUri_by_first_digit [OF String_of_779041849]
    createLCCNUri_by_first_digit [OF String_of_0]
  by (simp add: js_def)

text \<open>
  C4 claims that the values of a repeated code are joined by single spaces like all
  other pieces. The parser stores a repeated code as an array, and
  \<open>extractNameFromSubfields\<close> pushes that array as one piece, which \<open>join\<close> turns
  into its elements separated by commas: the field \<open>$aSmith$aJohn\<close> gives the name
  \<open>Smith,John\<close>, not \<open>Smith John\<close>.
\<close>

theorem extractName_repeated_code:
  "parseSubfields ascii_platform ([31] @ js ''aSmith'' @ [31] @ js ''aJohn'') []
     = [(js ''a'', Arr [js ''Smith'', js ''John''])]
   \<and> extractNameFromSubfields [(js ''a'', Arr [js ''Smith'', js ''John''])] = js ''Smith,John''"
  by (simp add: js_def obj_simps ascii_platform_def extractNameFromSubfields_def trim_def
      is_whitespace_def)

section \<open>Properties of the candidate resolution\<close>

text \<open>
  C3, as stated: the outcome is \<open>PoorMatch\<close> exactly when the least distance exceeds
  10, so that a least distance of exactly 10 is classified \<open>Matched\<close>. The name
  \<open>Smith, John A.\<close> and the single candidate \<open>X.\<close> are at distance 10, and the
  resolver selects that candidate; but its identifier 779041849 has no prefix, so the
  field is reported with status \<open>error\<close> and is not updated.
\<close>

theorem unconvertible_winner_counterexample:
  "findBestLCCNMatch ascii_platform (js ''Smith, John A.'') (LccnList example_unconvertible_candidates)
     = Some \<lparr> lccn = 779041849, label = Some (js ''X.''), distance = 10 \<rparr>
   \<and> (\<exists>rep'. processField ascii_platform (js ''binary'') (\<lambda>key. 0)
          [Some (LccnList example_unconvertible_candidates)] 0
          (DataField (js ''100'') (js ''1'') (js '' '') example_subfields_10 None) example_report
        = Inr (DataField (js ''100'') (js ''1'') (js '' '') example_subfields_10 None, rep')
      \<and> map status (details rep') = [js ''error''] \<and> fieldsUpdated rep' = 0)"
proof -
  have ne: "js ''Smith, John A.'' \<noteq> []"
    by (simp add: js_def)
  have "\<exists>rep'. processField ascii_platform (js ''binary'') (\<lambda>key. 0)
          [Some (LccnList example_unconvertible_candidates)] 0
          (DataField (js ''100'') (js ''1'') (js '' '') example_subfields_10 None) example_report
        = Inr (DataField (js ''100'') (js ''1'') (js '' '') example_subfields_10 None, rep')
      \<and> map status (details rep') = [js ''error''] \<and> fieldsUpdated rep' = 0"
    using ne example_match_unconvertible
    by (simp add: pipeline_simps example_tag example_name_10 lookupDecoder_get_def
        createLCCNUri_779041849 example_report_def)
  with example_match_unconvertible show ?thesis
    by simp
qed

text \<open>
  C3, amended: for a name field that reaches the resolver with a non-empty list of
  candidates, \<open>findBestLCCNMatch\<close> returns the candidate at an index \<open>k\<close> together
  with its distance, which is the Levenshtein distance between the name and the label
  of the candidate, both lowercased and stripped of every character outside
  \<open>a-z0-9\<close>; no candidate has a smaller distance, and every candidate before \<open>k\<close>
  has a greater one. If this distance is greater than 10, one entry with status
  \<open>poor_match\<close> is appended and the field is returned as it was. If it is at most
  10, the appended entry is not a \<open>poor_match\<close>: when the identifier of the
  candidate converts to a URI, the entry has status \<open>updated\<close> and records the URI,
  the label and the distance, and subfield \<open>0\<close> of the returned field is the URI;
  when it does not convert, the entry has status \<open>error\<close> and the field is returned
  as it was.
\<close>

theorem resolver_first_minimum_and_threshold:
  assumes items: "items \<noteq> []"
    and tg: "tg \<in> set nameFieldTags"
    and nm: "nm = extractNameFromSubfields sf" "nm \<noteq> []"
    and found: "trie (normalizeString P nm) \<noteq> - 1"
    and cands: "lookupDecoder_get table (trie (normalizeString P nm)) = Some (LccnList items)"
    and f: "f = DataField tg i1 i2 sf el"
    and xml: "fileType = js ''xml'' \<longrightarrow> el \<noteq> None"
    and res: "res = processField P fileType trie table i f rep"
  shows "\<exists>k < length items.
      findBestLCCNMatch P nm (LccnList items) =
        Some \<lparr> lccn = fst (items ! k), label = Some (snd (items ! k)),
                distance = normalized_distance_spec P nm (snd (items ! k)) \<rparr>
      \<and> (\<forall>j < length items.
            normalized_distance_spec P nm (snd (items ! k)) \<le> normalized_distance_spec P nm (snd (items ! j)))
      \<and> (\<forall>j < k. normalized_distance_spec P nm (snd (items ! k)) < normalized_distance_spec P nm (snd (items ! j)))
      \<and> (10 < normalized_distance_spec P nm (snd (items ! k)) \<longrightarrow>
            (\<exists>rep' e. res = Inr (f, rep') \<and> details rep' = details rep @ [e]
               \<and> status e = js ''poor_match''
               \<and> levenshtein e = Some (normalized_distance_spec P nm (snd (items ! k)))))
      \<and> (normalized_distance_spec P nm (snd (items ! k)) \<le> 10 \<longrightarrow>
            (\<exists>f' rep' e. res = Inr (f', rep') \<and> details rep' = details rep @ [e]
               \<and> status e \<noteq> js ''poor_match''
               \<and> (case createLCCNUri (fst (items ! k)) of
                     Some uri \<Rightarrow>
                       status e = js ''updated'' \<and> lccnUri e = Some uri
                       \<and> matchedLabel e = Some (snd (items ! k))
                       \<and> levenshtein e = Some (normalized_distance_spec P nm (snd (items ! k)))
                       \<and> map_of (subfields f') (js ''0'') = Some (Str uri)
                   | None \<Rightarrow> status e = js ''error'' \<and> f' = f)))"
proof -
  from findBest_nonempty [OF items, of P nm] obtain k where k: "k < length items"
    and best0: "findBestLCCNMatch P nm (LccnList items) =
        Some \<lparr> lccn = fst (items ! k), label = Some (snd (items ! k)),
                distance = candidate_distance P nm (items ! k) \<rparr>"
    and least0: "\<forall>j < length items. candidate_distance P nm (items ! k) \<le> candidate_distance P nm (items ! j)"
    and first0: "\<forall>j < k. candidate_distance P nm (items ! k) < candidate_distance P nm (items ! j)"
    by blast
  let ?d = "normalized_distance_spec P nm (snd (items ! k))"
  let ?m = "\<lparr> lccn = fst (items ! k), label = Some (snd (items ! k)), distance = ?d \<rparr>"
  from best0 have best: "findBestLCCNMatch P nm (LccnList items) = Some ?m"
    by (simp add: candidate_distance_spec)
  from least0 have least: "\<forall>j < length items. ?d \<le> normalized_distance_spec P nm (snd (items ! j))"
    by (simp add: candidate_distance_spec)
  from first0 have first: "\<forall>j < k. ?d < normalized_distance_spec P nm (snd (items ! j))"
    by (simp add: candidate_distance_spec)
  have far: "\<exists>rep' e. res = Inr (f, rep') \<and> details rep' = details rep @ [e]
               \<and> status e = js ''poor_match'' \<and> levenshtein e = Some ?d" if "10 < ?d"
    using that tg nm found cands best f res
    by (simp add: pipeline_simps poor_match_entry_def)
  have near: "\<exists>f' rep' e. res = Inr (f', rep') \<and> details rep' = details rep @ [e]
               \<and> status e \<noteq> js ''poor_match''
               \<and> (case createLCCNUri (fst (items ! k)) of
                     Some uri \<Rightarrow>
                       status e = js ''updated'' \<and> lccnUri e = Some uri
                       \<and> matchedLabel e = Some (snd (items ! k))
                       \<and> levenshtein e = Some ?d
                       \<and> map_of (subfields f') (js ''0'') = Some (Str uri)
                   | None \<Rightarrow> status e = js ''error'' \<and> f' = f)" if le: "?d \<le> 10"
  proof (cases "createLCCNUri (fst (items ! k))")
    case None
    with le tg nm found cands best f res show ?thesis
      by (simp add: pipeline_simps status_values [symmetric])
  next
    case (Some uri)
    from written_field [OF xml, of tg i1 i2 sf uri] obtain f' where
      w: "(if fileType = js ''xml'' then updateSubfieldZero (DataField tg i1 i2 sf el) uri
                else Inr (setSubfieldZero (DataField tg i1 i2 sf el) uri)) = Inr f'"
      and p: "map_of (subfields f') (js ''0'') = Some (Str uri)"
      by auto
    from Some le tg nm found cands best f res w
    have "\<exists>rep' e. res = Inr (f', rep') \<and> details rep' = details rep @ [e]
            \<and> status e = js ''updated'' \<and> lccnUri e = Some uri
            \<and> matchedLabel e = Some (snd (items ! k)) \<and> levenshtein e = Some ?d"
      by (simp add: pipeline_simps updated_entry_def)
    with Some p show ?thesis
      by (auto simp: status_values)
  qed
  from k best least first far near show ?thesis
    by blast
qed

theorem resolver_first_minimum_and_threshold_witness:
  "(\<exists>f' rep' e.
      processField ascii_platform (js ''binary'') (\<lambda>key. 0) [Some (LccnList example_far_candidates)] 0
        (DataField (js ''100'') (js ''1'') (js '' '') example_subfields_10 None) example_report = Inr (f', rep')
      \<and> details rep' = details example_report @ [e] \<and> status e = js ''updated''
      \<and> lccnUri e = Some (js ''http://id.loc.gov/authorities/names/nb79041849'')
      \<and> matchedLabel e = Some (js ''X.'') \<and> levenshtein e = Some 10
      \<and> map_of (subfields f') (js ''0'') = Some (Str (js ''http://id.loc.gov/authorities/names/nb79041849'')))
   \<and> (\<exists>rep' e.
      processField ascii_platform (js ''binary'') (\<lambda>key. 0) [Some (LccnList example_far_candidates)] 0
        (DataField (js ''100'') (js ''1'') (js '' '') example_subfields_11 None) example_report
        = Inr (DataField (js ''100'') (js ''1'') (js '' '') example_subfields_11 None, rep')
      \<and> details rep' = details example_report @ [e] \<and> status e = js ''poor_match''
      \<and> levenshtein e = Some 11)"
proof -
  have ne: "example_far_candidates \<noteq> []" "js ''Smith, John A.'' \<noteq> []" "js ''Smith, John Al'' \<noteq> []"
    by (simp_all add: example_far_candidates_def js_def)
  have bin: "js ''binary'' = js ''xml'' \<longrightarrow> (None :: dom_element option) \<noteq> None"
    by (simp add: js_def)
  have found: "(\<lambda>key. 0) (normalizeString ascii_platform nm) \<noteq> (- 1 :: int)" for nm
    by simp
  let ?uri = "js ''http://id.loc.gov/authorities/names/nb79041849''"
  let ?f = "DataField (js ''100'') (js ''1'') (js '' '') example_subfields_10 None"
  let ?g = "DataField (js ''100'') (js ''1'') (js '' '') example_subfields_11 None"
  let ?res = "\<lambda>f. processField ascii_platform (js ''binary'') (\<lambda>key. 0)
      [Some (LccnList example_far_candidates)] 0 f example_report"
  from resolver_first_minimum_and_threshold [OF ne(1) example_tag example_name_10 [symmetric] ne(2)
      found example_lookup refl bin refl,
      where ?i1.0 = "js ''1''" and ?i2.0 = "js '' ''" and i = 0 and rep = example_report]
  obtain k where
    b: "findBestLCCNMatch ascii_platform (js ''Smith, John A.'') (LccnList example_far_candidates) =
        Some \<lparr> lccn = fst (example_far_candidates ! k), label = Some (snd (example_far_candidates ! k)),
                distance = normalized_distance_spec ascii_platform (js ''Smith, John A.'')
                             (snd (example_far_candidates ! k)) \<rparr>"
    and n: "normalized_distance_spec ascii_platform (js ''Smith, John A.'') (snd (example_far_candidates ! k)) \<le> 10 \<longrightarrow>
            (\<exists>f' rep' e. ?res ?f = Inr (f', rep') \<and> details rep' = details example_report @ [e]
               \<and> status e \<noteq> js ''poor_match''
               \<and> (case createLCCNUri (fst (example_far_candidates ! k)) of
                     Some uri \<Rightarrow>
                       status e = js ''updated'' \<and> lccnUri e = Some uri
                       \<and> matchedLabel e = Some (snd (example_far_candidates ! k))
                       \<and> levenshtein e = Some (normalized_distance_spec ascii_platform (js ''Smith, John A.'')
                             (snd (example_far_candidates ! k)))
                       \<and> map_of (subfields f') (js ''0'') = Some (Str uri)
                   | None \<Rightarrow> status e = js ''error'' \<and> f' = ?f))"
    by blast
  from b have "Some \<lparr> lccn = fst (example_far_candidates ! k), label = Some (snd (example_far_candidates ! k)),
                distance = normalized_distance_spec ascii_platform (js ''Smith, John A.'')
                             (snd (example_far_candidates ! k)) \<rparr>
      = Some \<lparr> lccn = 179041849, label = Some (js ''X.''), distance = 10 \<rparr>"
    by (simp only: example_match_10)
  then have
    v: "fst (example_far_candidates ! k) = 179041849" "snd (example_far_candidates ! k) = js ''X.''"
      "normalized_distance_spec ascii_platform (js ''Smith, John A.'') (snd (example_far_candidates ! k)) = 10"
    by blast+
  from v have d10: "normalized_distance_spec ascii_platform (js ''Smith, John A.'') (js ''X.'') = 10"
    by simp
  from n have c1: "\<exists>f' rep' e. ?res ?f = Inr (f', rep')
      \<and> details rep' = details example_report @ [e] \<and> status e = js ''updated''
      \<and> lccnUri e = Some ?uri \<and> matchedLabel e = Some (js ''X.'') \<and> levenshtein e = Some 10
      \<and> map_of (subfields f') (js ''0'') = Some (Str ?uri)"
    unfolding v(1,2) by (simp add: createLCCNUri_179041849 d10) blast
  from resolver_first_minimum_and_threshold [OF ne(1) example_tag example_name_11 [symmetric] ne(3)
      found example_lookup refl bin refl,
      where ?i1.0 = "js ''1''" and ?i2.0 = "js '' ''" and i = 0 and rep = example_report]
  obtain j where
    b': "findBestLCCNMatch ascii_platform (js ''Smith, John Al'') (LccnList example_far_candidates) =
        Some \<lparr> lccn = fst (example_far_candidates ! j), label = Some (snd (example_far_candidates ! j)),
                distance = normalized_distance_spec ascii_platform (js ''Smith, John Al'')
                             (snd (example_far_candidates ! j)) \<rparr>"
    and n': "10 < normalized_distance_spec ascii_platform (js ''Smith, John Al'') (snd (example_far_candidates ! j)) \<longrightarrow>
            (\<exists>rep' e. ?res ?g = Inr (?g, rep') \<and> details rep' = details example_report @ [e]
               \<and> status e = js ''poor_match''
               \<and> levenshtein e = Some (normalized_distance_spec ascii_platform (js ''Smith, John Al'')
                     (snd (example_far_candidates ! j))))"
    by blast
  from b' have "Some \<lparr> lccn = fst (example_far_candidates ! j), label = Some (snd (example_far_candidates ! j)),
                distance = normalized_distance_spec ascii_platform (js ''Smith, John Al'')
                             (snd (example_far_candidates ! j)) \<rparr>
      = Some \<lparr> lccn = 179041849, label = Some (js ''X.''), distance = 11 \<rparr>"
    by (simp only: example_match_11)
  then have
    v': "normalized_distance_spec ascii_platform (js ''Smith, John Al'') (snd (example_far_candidates ! j)) = 11"
    by blast
  from n' have c2: "\<exists>rep' e. ?res ?g = Inr (?g, rep') \<and> details rep' = details example_report @ [e]
      \<and> status e = js ''poor_match'' \<and> levenshtein e = Some 11"
    unfolding v' by simp
  from c1 c2 show ?thesis
    by blast
qed

text \<open>
  C10: on a non-empty list of candidates \<open>findBestLCCNMatch\<close> returns a match whose
  distance is the (finite) distance of one of the candidates; on the empty list it
  returns \<open>null\<close>, and a field whose lookup yields the empty list makes the loop body
  throw a \<open>TypeError\<close> where it reads \<open>match.distance\<close>, instead of adding a report
  entry.
\<close>

theorem empty_candidate_list_faults:
  "(items \<noteq> [] \<longrightarrow>
      (\<exists>m. findBestLCCNMatch P nm (LccnList items) = Some m
          \<and> (\<exists>x \<in> set items. distance m = candidate_distance P nm x)))
   \<and> findBestLCCNMatch P nm (LccnList []) = None
   \<and> (tg \<in> set nameFieldTags \<and> extractNameFromSubfields sf \<noteq> []
        \<and> trie (normalizeString P (extractNameFromSubfields sf)) \<noteq> - 1
        \<and> lookupDecoder_get table (trie (normalizeString P (extractNameFromSubfields sf))) = Some (LccnList [])
      \<longrightarrow> processField P fileType trie table i (DataField tg i1 i2 sf el) rep = Inl TypeError)"
proof (intro conjI impI)
  assume "items \<noteq> []"
  from findBest_nonempty [OF this, of P nm] obtain k where "k < length items"
    and "findBestLCCNMatch P nm (LccnList items) =
        Some \<lparr> lccn = fst (items ! k), label = Some (snd (items ! k)),
                distance = candidate_distance P nm (items ! k) \<rparr>"
    by blast
  then show "\<exists>m. findBestLCCNMatch P nm (LccnList items) = Some m
          \<and> (\<exists>x \<in> set items. distance m = candidate_distance P nm x)"
    by (auto intro: nth_mem)
next
  show "findBestLCCNMatch P nm (LccnList []) = None"
    by simp
next
  assume "tg \<in> set nameFieldTags \<and> extractNameFromSubfields sf \<noteq> []
        \<and> trie (normalizeString P (extractNameFromSubfields sf)) \<noteq> - 1
        \<and> lookupDecoder_get table (trie (normalizeString P (extractNameFromSubfields sf))) = Some (LccnList [])"
  then show "processField P fileType trie table i (DataField tg i1 i2 sf el) rep = Inl TypeError"
    by (simp add: pipeline_simps)
qed

theorem empty_candidate_list_faults_witness:
  "(\<exists>m. findBestLCCNMatch ascii_platform (js ''S. E. A.'') (LccnList example_candidates) = Some m
        \<and> (\<exists>x \<in> set example_candidates. distance m = candidate_distance ascii_platform (js ''S. E. A.'') x))
   \<and> findBestLCCNMatch ascii_platform (js ''S. E. A.'') (LccnList []) = None
   \<and> processField ascii_platform (js ''binary'') (\<lambda>key. 0) [Some (LccnList [])] 0
        (DataField (js ''100'') (js ''1'') (js '' '') example_subfields None) example_report = Inl TypeError"
proof -
  have h1: "example_candidates \<noteq> []"
    by (simp add: example_candidates_def)
  have h2: "js ''100'' \<in> set nameFieldTags \<and> extractNameFromSubfields example_subfields \<noteq> []
        \<and> (\<lambda>key. 0) (normalizeString ascii_platform (extractNameFromSubfields example_subfields)) \<noteq> (- 1 :: int)
        \<and> lookupDecoder_get [Some (LccnList [])]
             ((\<lambda>key. 0) (normalizeString ascii_platform (extractNameFromSubfields example_subfields)))
           = Some (LccnList [])"
    by (simp add: example_tag example_name_nonempty lookupDecoder_get_def)
  from empty_candidate_list_faults [of example_candidates ascii_platform "js ''S. E. A.''" "js ''100''"
      example_subfields "\<lambda>key. 0" "[Some (LccnList [])]" "js ''binary''" 0 "js ''1''" "js '' ''" None
      example_report] h1 h2
  show ?thesis
    by blast
qed

section \<open>Properties of the processing of a field\<close>



section \<open>Properties of the file type detection\<close>

text \<open>
  C5, as stated: a file whose name ends in an extension other than \<open>.mrc\<close>,
  \<open>.marc\<close> or \<open>.xml\<close> is rejected as unsupported before any decoding. The file
  \<open>records.txt\<close> is not: \<open>detectFileType\<close> answers \<open>xml\<close> for it, its text is
  given to the XML parser, and the failure that comes back is the parser's.
\<close>

theorem unknown_extension_counterexample:
  "detectFileType ascii_platform example_text_file = js ''xml''
   \<and> processMARCFile ascii_platform rejecting_dom (\<lambda>key. - 1) [] example_text_file = Inl XMLParsingError"
  by (simp add: processMARCFile_def readRecords_def example_text_file_type)
     (simp add: example_text_file_def rejecting_dom_def js_def)

text \<open>
  C5, amended: a file whose lowercased name ends in none of \<open>.xml\<close>, \<open>.mrc\<close> and
  \<open>.marc\<close> is taken as MARCXML. \<open>detectFileType\<close> returns \<open>xml\<close>, the records are
  read exactly as for an XML file, the pipeline never fails with the unsupported-format
  error, and when the size check and the read succeed the text is parsed as XML, so
  that a document the XML parser rejects fails with the XML parsing error.
\<close>

theorem unknown_extension_taken_as_xml:
  assumes "\<not> endsWith (toLowerCase P (file_name fl)) (js ''.xml'')"
    and "\<not> endsWith (toLowerCase P (file_name fl)) (js ''.mrc'')"
    and "\<not> endsWith (toLowerCase P (file_name fl)) (js ''.marc'')"
  shows "detectFileType P fl = js ''xml''
     \<and> readRecords P D (detectFileType P fl) fl = readRecords P D (js ''xml'') fl
     \<and> processMARCFile P D trie table fl \<noteq> Inl UnsupportedFileType
     \<and> (file_size fl \<le> 500 * 1024 * 1024 \<and> file_text fl = Some txt \<and> txt \<noteq> [] \<and> parseXML D txt = None
          \<longrightarrow> processMARCFile P D trie table fl = Inl XMLParsingError)"
proof -
  from assms have t: "detectFileType P fl = js ''xml''"
    by (simp add: detectFileType_def)
  have x: "js ''xml'' \<noteq> js ''binary''"
    by (simp add: js_def)
  have "processMARCFile P D trie table fl = Inl XMLParsingError"
    if "file_size fl \<le> 500 * 1024 * 1024" "file_text fl = Some txt" "txt \<noteq> []" "parseXML D txt = None"
    using that by (simp add: processMARCFile_def readRecords_def t x)
  with t processMARCFile_supported [of P D trie table fl] show ?thesis
    by simp
qed

theorem unknown_extension_taken_as_xml_witness:
  "detectFileType ascii_platform example_text_file = js ''xml''
   \<and> readRecords ascii_platform rejecting_dom (detectFileType ascii_platform example_text_file) example_text_file
       = readRecords ascii_platform rejecting_dom (js ''xml'') example_text_file
   \<and> processMARCFile ascii_platform rejecting_dom (\<lambda>key. - 1) [] example_text_file \<noteq> Inl UnsupportedFileType
   \<and> processMARCFile ascii_platform rejecting_dom (\<lambda>key. - 1) [] example_text_file = Inl XMLParsingError"
proof -
  have h: "\<not> endsWith (toLowerCase ascii_platform (file_name example_text_file)) (js ''.xml'')"
    "\<not> endsWith (toLowerCase ascii_platform (file_name example_text_file)) (js ''.mrc'')"
    "\<not> endsWith (toLowerCase ascii_platform (file_name example_text_file)) (js ''.marc'')"
    by (simp_all add: example_text_file_def ascii_platform_def endsWith_def js_def ascii_lower_def)
  have g: "file_size example_text_file \<le> 500 * 1024 * 1024 \<and> file_text example_text_file = Some (js ''not a MARC'')
      \<and> js ''not a MARC'' \<noteq> [] \<and> parseXML rejecting_dom (js ''not a MARC'') = None"
    by (simp add: example_text_file_def rejecting_dom_def js_def)
  from unknown_extension_taken_as_xml [OF h, of rejecting_dom "\<lambda>key. - 1" "[]" "js ''not a MARC''"] g
  show ?thesis
    by blast
qed

section \<open>Properties of the binary decoder\<close>

text \<open>
  C7, as stated: for one well-formed record followed by truncated or otherwise malformed
  trailing bytes, \<open>parse\<close> returns exactly that record. It does not when the trailing
  bytes are longer than 24 and start with a positive length: the sample record followed
  by its own first 30 bytes decodes to two records, the second one made from the
  truncated copy.
\<close>

theorem trailing_bytes_counterexample:
  "parse ascii_platform example_record_bytes =
     [\<lparr> endOffset = 43, leader = js ''00043nam a2200037   4500'',
        rfields = [ControlField (js ''001'') (js ''abcd'')] \<rparr>]
   \<and> parse ascii_platform (example_record_bytes @ take 30 example_record_bytes) =
     [\<lparr> endOffset = 43, leader = js ''00043nam a2200037   4500'',
        rfields = [ControlField (js ''001'') (js ''abcd'')] \<rparr>,
      \<lparr> endOffset = 86, leader = js ''00043nam a2200037   4500'',
        rfields = [ControlField (js ''001'') []] \<rparr>]"
  by (simp add: example_record_bytes_def decode_simps)

text \<open>
  C7, amended: a record that fails to decode at its start offset ends the scan, and the
  records parsed before it are kept. For a buffer made of a record \<open>r\<close> that decodes
  and whose length field is the length of \<open>r\<close>, followed by trailing bytes \<open>t\<close>,
  \<open>parse\<close> returns exactly that record when \<open>t\<close> is empty, starts with a zero
  byte, has at most 24 bytes, or does not decode at its start (its length field is not a
  positive number). The model of \<open>parse\<close> has no error result because nothing the
  scan calls can throw.
\<close>

theorem parse_stops_at_bad_record:
  "(parseRecord P bytes offset = None \<longrightarrow> parse_from P bytes offset records = records)
   \<and> (parseRecord P (r @ t) 0 = Some record \<and> endOffset record = length r
        \<and> r \<noteq> [] \<and> hd r \<noteq> 0 \<and> 24 < length (r @ t)
        \<and> (t = [] \<or> hd t = 0 \<or> length t \<le> 24 \<or> parseRecord P (r @ t) (length r) = None)
      \<longrightarrow> parse P (r @ t) = [record])"
proof (intro conjI impI)
  assume "parseRecord P bytes offset = None"
  then show "parse_from P bytes offset records = records"
    by (simp add: parse_from.simps)
next
  assume a: "parseRecord P (r @ t) 0 = Some record \<and> endOffset record = length r
        \<and> r \<noteq> [] \<and> hd r \<noteq> 0 \<and> 24 < length (r @ t)
        \<and> (t = [] \<or> hd t = 0 \<or> length t \<le> 24 \<or> parseRecord P (r @ t) (length r) = None)"
  then have r0: "(r @ t) ! 0 \<noteq> 0"
    by (cases r) auto
  have "parse_from P (r @ t) 0 [] = parse_from P (r @ t) (endOffset record) ([] @ [record])"
    by (subst parse_from.simps) (use a r0 in simp)
  with a have first: "parse P (r @ t) = parse_from P (r @ t) (length r) [record]"
    by (simp add: parse_def)
  from a have "t = [] \<or> (r @ t) ! length r = 0 \<or> length t \<le> 24 \<or> parseRecord P (r @ t) (length r) = None"
    by (cases t) (auto simp: nth_append)
  then have "parse_from P (r @ t) (length r) [record] = [record]"
    by (subst parse_from.simps) auto
  with first show "parse P (r @ t) = [record]"
    by simp
qed

theorem parse_stops_at_bad_record_witness:
  "parse_from ascii_platform (js ''garbage'') 0 [] = []
   \<and> parse ascii_platform (example_record_bytes @ take 24 example_record_bytes) =
       [\<lparr> endOffset = 43, leader = js ''00043nam a2200037   4500'',
          rfields = [ControlField (js ''001'') (js ''abcd'')] \<rparr>]"
proof -
  let ?rec = "\<lparr> endOffset = 43, leader = js ''00043nam a2200037   4500'',
          rfields = [ControlField (js ''001'') (js ''abcd'')] \<rparr>"
  have h1: "parseRecord ascii_platform (js ''garbage'') 0 = None"
    by (simp add: decode_simps)
  have h2: "parseRecord ascii_platform (example_record_bytes @ take 24 example_record_bytes) 0 = Some ?rec
        \<and> endOffset ?rec = length example_record_bytes
        \<and> example_record_bytes \<noteq> [] \<and> hd example_record_bytes \<noteq> 0
        \<and> 24 < length (example_record_bytes @ take 24 example_record_bytes)
        \<and> (take 24 example_record_bytes = [] \<or> hd (take 24 example_record_bytes) = 0
            \<or> length (take 24 example_record_bytes) \<le> 24
            \<or> parseRecord ascii_platform (example_record_bytes @ take 24 example_record_bytes)
                 (length example_record_bytes) = None)"
    by (simp add: example_record_bytes_def decode_simps)
  from parse_stops_at_bad_record [of ascii_platform "js ''garbage''" 0 "[]" 
      example_record_bytes "take 24 example_record_bytes" ?rec] h1 h2
  show ?thesis
    by blast
qed

section \<open>The round trip of the binary codec\<close>

text \<open>
  The record that \<open>parse\<close> makes of the 25-byte sample buffer, rebuilt step by step:
  its one field has the tag \<open>7\<close>, which the directory entry pads to \<open>7\<close> and two
  spaces.
\<close>

lemma short_rebuild_fields: "rebuild_fields ascii_platform [DataField (js ''7'') [0] [0] [] None] 0
    = Inr ([[0, 0, 30]], [js ''7  000300000''])"
  by (simp add: encode_simps)

lemma short_set_entries: "set_entries (replicate 13 0) [js ''7  000300000''] 0 = Inr (js ''7  000300000'' @ [0])"
  by (simp add: encode_simps)

lemma short_leader: "rebuild_leader ascii_platform (js ''00025nam a2200040   4500'') 41 37 = js ''00041nam a2200037   4500''"
  by (simp add: encode_simps)



lemma short_arith: "(0 + Suc 0) * 12 = (12::nat)" "12 + 1 = (13::nat)"
  "37 + (0 + Suc 0 + Suc 0 + Suc 0) + 1 = (41::nat)" "24 + 13 = (37::nat)" "41 - 1 = (40::nat)"
  by simp_all

lemma short_set_leader: "ta_set (replicate 41 0) (js ''00041nam a2200037   4500'') 0
    = Inr (js ''00041nam a2200037   4500'' @ replicate 17 0)"
  using ta_set_at [of "[]" 0 "js ''00041nam a2200037   4500''" "replicate 41 0"]
  by (simp add: js_def)

lemma short_directory: "(js ''7  000300000'' @ [0]) [12 := 30] = js ''7  000300000'' @ [30]"
  using list_update_length [of "js ''7  000300000''" 0 "[]" 30]
  by (simp add: js_def)

lemma short_set_directory: "ta_set (js ''00041nam a2200037   4500'' @ replicate 17 0) (js ''7  000300000'' @ [30]) 24
    = Inr (js ''00041nam a2200037   4500'' @ (js ''7  000300000'' @ [30]) @ replicate 4 0)"
  using ta_set_at [of "js ''00041nam a2200037   4500''" 24 "js ''7  000300000'' @ [30]" "replicate 17 0"]
  by (simp add: js_def)

lemma short_set_fieldData: "ta_set (js ''00041nam a2200037   4500'' @ (js ''7  000300000'' @ [30]) @ replicate 4 0) [0, 0, 30] 37
    = Inr (js ''00041nam a2200037   4500'' @ (js ''7  000300000'' @ [30]) @ [0, 0, 30] @ [0])"
  using ta_set_at [of "js ''00041nam a2200037   4500'' @ (js ''7  000300000'' @ [30])" 37 "[0, 0, 30]" "replicate 4 0"]
  by (simp add: js_def replicate_numeral_eval)

lemma short_terminator: "(js ''00041nam a2200037   4500'' @ (js ''7  000300000'' @ [30]) @ [0, 0, 30] @ [0]) [40 := 29]
    = js ''00041nam a2200037   4500'' @ js ''7  000300000'' @ [30] @ [0, 0, 30] @ [29]"
  using list_update_length [of "js ''00041nam a2200037   4500'' @ (js ''7  000300000'' @ [30]) @ [0, 0, 30]" 0 "[]" 29]
  by (simp add: js_def)

lemma short_rebuildRecord: "rebuildRecord ascii_platform
       \<lparr> endOffset = 25, leader = js ''00025nam a2200040   4500'',
          rfields = [DataField (js ''7'') [0] [0] [] None] \<rparr> =
       Inr (js ''00041nam a2200037   4500'' @ js ''7  000300000'' @ [30] @ [0, 0, 30] @ [29])"
  apply (simp only: rebuildRecord_def marc_record.select_convs short_rebuild_fields sum.case prod.case Let_def)
  apply (simp only: list.size concat.simps append_Nil2 short_arith short_set_entries short_leader
      short_set_leader short_set_directory short_set_fieldData short_directory short_terminator sum.case)
  done

text \<open>
  C1, as stated: for every buffer that decodes to records, the rebuilt output decodes to
  field content identical to the first decode. The 25-byte sample buffer decodes to one
  record whose field has the one-character tag \<open>7\<close> (the buffer ends inside the
  directory); the export pads the tag to three characters, and decoding the export
  gives a field with the tag \<open>7\<close> followed by two spaces.
\<close>

theorem short_tag_counterexample:
  "parse ascii_platform example_short_buffer =
     [\<lparr> endOffset = 25, leader = js ''00025nam a2200040   4500'',
        rfields = [DataField (js ''7'') [0] [0] [] None] \<rparr>]
   \<and> exportBinary ascii_platform (parse ascii_platform example_short_buffer) =
       Inr (js ''00041nam a2200037   4500'' @ js ''7  000300000'' @ [30] @ [0, 0, 30] @ [29])
   \<and> map rfields (parse ascii_platform
         (js ''00041nam a2200037   4500'' @ js ''7  000300000'' @ [30] @ [0, 0, 30] @ [29]))
       = [[DataField (js ''7  '') [0] [0] [] None]]
   \<and> map rfields (parse ascii_platform example_short_buffer) \<noteq> [[DataField (js ''7  '') [0] [0] [] None]]"
proof -
  have p: "parse ascii_platform example_short_buffer =
     [\<lparr> endOffset = 25, leader = js ''00025nam a2200040   4500'',
        rfields = [DataField (js ''7'') [0] [0] [] None] \<rparr>]"
    by (simp add: example_short_buffer_def decode_simps fromCharCode_at_def)
  have q: "map rfields (parse ascii_platform
         (js ''00041nam a2200037   4500'' @ js ''7  000300000'' @ [30] @ [0, 0, 30] @ [29]))
       = [[DataField (js ''7  '') [0] [0] [] None]]"
    by (simp add: decode_simps fromCharCode_at_def)
  have d: "js ''7'' \<noteq> js ''7  ''"
    by (simp add: js_def)
  from p q d short_rebuildRecord show ?thesis
    by simp
qed

text \<open>
  C1, amended: let the runtime's codec be as \<open>utf8_codec\<close> says, and let the buffer be
  a sequence of bytes whose decoded records fit the format: the leader is 24 7-bit
  characters, every tag is three 7-bit characters, every text (the data of a control
  field, the value of a subfield) makes the round trip through the codec, every
  serialised field has at most 9999 bytes and every rebuilt record at most 99999 bytes.
  Then \<open>exportBinary\<close> succeeds on the decoded records, decoding its output yields the
  same fields in the same order (tags, indicators, subfield codes and values), and every
  rebuilt record is consistent: the base address in its leader is 24 plus the length of
  the directory, every directory entry records the serialised length of its field with
  the terminator, and the record length in the leader is the base address plus the
  length of the field data plus 1, which is the number of bytes of the record.
\<close>

theorem binary_round_trip:
  assumes P: "utf8_codec P" and buf: "is_bytes buf"
    and enc: "list_all (encodable P) (parse P buf)"
  shows "\<exists>out. exportBinary P (parse P buf) = Inr out
           \<and> map rfields (parse P out) = map rfields (parse P buf)
           \<and> list_all (\<lambda>r. \<exists>b. rebuildRecord P r = Inr b \<and> consistent P r b) (parse P buf)"
proof -
  let ?rs = "parse P buf"
  let ?out = "concat (map (rebuilt_bytes P) ?rs)"
  from parse_ok [OF P buf] enc have good: "list_all (\<lambda>r. record_ok r \<and> encodable P r) ?rs"
    by (simp add: list_all_iff)
  from exportBinary_rebuilt [OF P good] have ex: "exportBinary P ?rs = Inr ?out" .
  from parse_from_rebuilt [OF P good, of "[]" "[]"]
  have again: "map rfields (parse P ?out) = map rfields ?rs"
    by (simp add: parse_def)
  have "\<exists>b. rebuildRecord P r = Inr b \<and> consistent P r b" if "r \<in> set ?rs" for r
  proof -
    from that good have r: "record_ok r" and e: "encodable P r"
      by (simp_all add: list_all_iff)
    from rebuildRecord_ok [OF P r e] consistent_rebuilt [OF P r e] show ?thesis
      by blast
  qed
  then have "list_all (\<lambda>r. \<exists>b. rebuildRecord P r = Inr b \<and> consistent P r b) ?rs"
    by (simp add: list_all_iff)
  with ex again show ?thesis
    by blast
qed

theorem binary_round_trip_witness:
  "\<exists>out. exportBinary ascii_platform (parse ascii_platform example_name_record_bytes) = Inr out
      \<and> map rfields (parse ascii_platform out)
          = [[ControlField (js ''001'') (js ''abcd''),
              DataField (js ''100'') (js ''1'') (js '' '')
                [(js ''a'', Arr [js ''Smith'', js ''John'']), (js ''d'', Str (js ''1900-''))] None]]
      \<and> list_all (\<lambda>r. \<exists>b. rebuildRecord ascii_platform r = Inr b \<and> consistent ascii_platform r b)
           (parse ascii_platform example_name_record_bytes)"
proof -
  have a: "is_bytes example_name_record_bytes"
    by (simp add: example_name_record_bytes_def is_bytes_def js_def)
  have e: "list_all (encodable ascii_platform) (parse ascii_platform example_name_record_bytes)"
    unfolding example_name_record
    by (simp add: encodable_def field_fits_def round_trips_def record_size_def field_size_def
        field_bytes_def starts_with_00_def subfield_bytes_def charCode0_byte_def is_ascii_def
        ascii_platform_def js_def)
  from binary_round_trip [OF ascii_platform_codec a e] show ?thesis
    by (simp add: example_name_record)
qed

end
